theory Spec2Isabelle
  imports Main "HOL-Library.Word"
begin

section \<open>The shared barrier state and the handle\<close>

type_synonym u32 = "32 word"
type_synonym u64 = "64 word"

text \<open>
  \<^verbatim>\<open>struct cycle_barrier_shared\<close> of \<^verbatim>\<open>barrier_sync.h\<close>: five fields, each on a
  cache line of its own. The alignment is not modelled; the widths are.
\<close>

record cycle_barrier_shared =
  cycle_count :: u64
  barrier_count :: u32
  num_processes :: u32
  sense :: u32
  initialized :: u32

text \<open>
  \<^verbatim>\<open>struct cycle_barrier\<close>, the handle of one process. The pointer \<^verbatim>\<open>shm\<close> is the
  address of the mapping (\<open>None\<close> is \<^verbatim>\<open>NULL\<close>), \<^verbatim>\<open>name\<close> is the copy made by
  \<^verbatim>\<open>strdup\<close> (\<open>None\<close> is \<^verbatim>\<open>NULL\<close>).
\<close>

record cycle_barrier =
  shm :: "nat option"
  name :: "string option"
  fd :: int
  is_leader :: bool
  local_sense :: u32
  unmap_at_close :: bool

section \<open>Atomic accesses to the shared state\<close>

text \<open>
  Every access of the source to the shared structure is one \<^verbatim>\<open>__atomic\<close> builtin.
  An event names the builtin and its operand; \<open>Local_step\<close> is a statement that touches
  only the locals or the handle of the calling process.
\<close>

datatype event =
    Store_cycle_count u64
  | Store_barrier_count u32
  | Store_num_processes u32
  | Store_sense u32
  | Store_initialized u32
  | Thread_fence
  | Load_num_processes
  | Load_sense
  | Load_cycle_count
  | Load_initialized
  | Add_fetch_barrier_count u32
  | Add_fetch_cycle_count u64
  | Local_step

fun apply_event :: "event \<Rightarrow> cycle_barrier_shared \<Rightarrow> cycle_barrier_shared" where
  "apply_event (Store_cycle_count v) m = m\<lparr>cycle_count := v\<rparr>"
| "apply_event (Store_barrier_count v) m = m\<lparr>barrier_count := v\<rparr>"
| "apply_event (Store_num_processes v) m = m\<lparr>num_processes := v\<rparr>"
| "apply_event (Store_sense v) m = m\<lparr>sense := v\<rparr>"
| "apply_event (Store_initialized v) m = m\<lparr>initialized := v\<rparr>"
| "apply_event (Add_fetch_barrier_count v) m = m\<lparr>barrier_count := barrier_count m + v\<rparr>"
| "apply_event (Add_fetch_cycle_count v) m = m\<lparr>cycle_count := cycle_count m + v\<rparr>"
| "apply_event Thread_fence m = m"
| "apply_event Load_num_processes m = m"
| "apply_event Load_sense m = m"
| "apply_event Load_cycle_count m = m"
| "apply_event Load_initialized m = m"
| "apply_event Local_step m = m"

section \<open>barrier\_wait as a step function\<close>

text \<open>
  One constructor for each statement of \<^verbatim>\<open>barrier_wait\<close> that is about to run, named by
  its line in \<^verbatim>\<open>barrier_sync.h\<close>. \<open>Idle\<close>: the process is outside a call; its next step
  enters \<^verbatim>\<open>barrier_wait\<close> and runs line 215.
\<close>

datatype wait_pc =
    Idle
  | L216_read_local_sense
  | L219_add_fetch_count
  | L221_test_arrived
  | L225_reset_count
  | L228_fence
  | L231_incr_cycle
  | L235_store_sense
  | L238_spin
  | L249_fence
  | L252_flip_sense
  | L255_load_cycle

text \<open>
  A process that calls \<^verbatim>\<open>barrier_wait\<close>: its handle, where it stands, the locals
  \<^verbatim>\<open>num_procs\<close>, \<^verbatim>\<open>my_sense\<close>, \<^verbatim>\<open>arrived\<close> of the call, and the values its completed
  calls have returned, oldest first.
\<close>

record waiter =
  handle :: cycle_barrier
  pc :: wait_pc
  num_procs :: u32
  my_sense :: u32
  arrived :: u32
  returned :: "u64 list"

text \<open>
  One step of \<^verbatim>\<open>barrier_wait\<close>: the atomic access made, the shared state after it and the
  process after it. The spin loop of line 238 is one load for each step; the process stays
  at the loop while the value read differs from \<^verbatim>\<open>my_sense\<close>. The handle is valid: the
  assertion of line 212 holds.
\<close>

definition barrier_wait_step ::
  "cycle_barrier_shared \<Rightarrow> waiter \<Rightarrow> event \<times> cycle_barrier_shared \<times> waiter" where
  "barrier_wait_step m b =
     (case pc b of
        Idle \<Rightarrow>
          (Load_num_processes, m, b\<lparr>num_procs := num_processes m, pc := L216_read_local_sense\<rparr>)
      | L216_read_local_sense \<Rightarrow>
          (Local_step, m, b\<lparr>my_sense := local_sense (handle b), pc := L219_add_fetch_count\<rparr>)
      | L219_add_fetch_count \<Rightarrow>
          (Add_fetch_barrier_count 1, m\<lparr>barrier_count := barrier_count m + 1\<rparr>,
           b\<lparr>arrived := barrier_count m + 1, pc := L221_test_arrived\<rparr>)
      | L221_test_arrived \<Rightarrow>
          (Local_step, m,
           b\<lparr>pc := (if arrived b = num_procs b then L225_reset_count else L238_spin)\<rparr>)
      | L225_reset_count \<Rightarrow>
          (Store_barrier_count 0, m\<lparr>barrier_count := 0\<rparr>, b\<lparr>pc := L228_fence\<rparr>)
      | L228_fence \<Rightarrow>
          (Thread_fence, m, b\<lparr>pc := L231_incr_cycle\<rparr>)
      | L231_incr_cycle \<Rightarrow>
          (Add_fetch_cycle_count 1, m\<lparr>cycle_count := cycle_count m + 1\<rparr>,
           b\<lparr>pc := L235_store_sense\<rparr>)
      | L235_store_sense \<Rightarrow>
          (Store_sense (my_sense b), m\<lparr>sense := my_sense b\<rparr>, b\<lparr>pc := L249_fence\<rparr>)
      | L238_spin \<Rightarrow>
          (Load_sense, m, b\<lparr>pc := (if sense m \<noteq> my_sense b then L238_spin else L249_fence)\<rparr>)
      | L249_fence \<Rightarrow>
          (Thread_fence, m, b\<lparr>pc := L252_flip_sense\<rparr>)
      | L252_flip_sense \<Rightarrow>
          (Local_step, m,
           b\<lparr>handle := (handle b)\<lparr>local_sense := 1 - my_sense b\<rparr>, pc := L255_load_cycle\<rparr>)
      | L255_load_cycle \<Rightarrow>
          (Load_cycle_count, m, b\<lparr>returned := returned b @ [cycle_count m], pc := Idle\<rparr>))"

text \<open>\<^verbatim>\<open>barrier_get_cycle\<close>, \<^verbatim>\<open>barrier_all_ready\<close>, \<^verbatim>\<open>barrier_get_num_processes\<close>: one
  atomic load each, no loop, nothing written.\<close>

definition barrier_get_cycle :: "cycle_barrier_shared \<Rightarrow> event list \<times> u64" where
  "barrier_get_cycle m = ([Load_cycle_count], cycle_count m)"

definition barrier_all_ready :: "cycle_barrier_shared \<Rightarrow> event list \<times> bool" where
  "barrier_all_ready m = ([Load_initialized], initialized m = 1)"

definition barrier_get_num_processes :: "cycle_barrier_shared \<Rightarrow> event list \<times> u32" where
  "barrier_get_num_processes m = ([Load_num_processes], num_processes m)"

text \<open>\<^verbatim>\<open>barrier_set_num_processes\<close>: one atomic store. The assertion of line 273 asks for a
  valid handle that is the leader's; the function is applied here to the region of such a
  handle.\<close>

definition barrier_set_num_processes ::
  "cycle_barrier_shared \<Rightarrow> u32 \<Rightarrow> event list \<times> cycle_barrier_shared" where
  "barrier_set_num_processes m n = ([Store_num_processes n], m\<lparr>num_processes := n\<rparr>)"

section \<open>Processes sharing one barrier\<close>

text \<open>
  The shared structure and the processes attached to it, by process number. All accesses
  of \<^verbatim>\<open>barrier_wait\<close> are sequentially consistent, so an execution is an interleaving of
  the processes' steps: a schedule lists which process takes the next step.
\<close>

record sys =
  mem :: cycle_barrier_shared
  procs :: "nat \<Rightarrow> waiter"

definition sys_event :: "nat \<Rightarrow> sys \<Rightarrow> event" where
  "sys_event p s = fst (barrier_wait_step (mem s) (procs s p))"

definition sys_step :: "nat \<Rightarrow> sys \<Rightarrow> sys" where
  "sys_step p s =
     (case barrier_wait_step (mem s) (procs s p) of
        (e, m', b') \<Rightarrow> s\<lparr>mem := m', procs := (procs s)(p := b')\<rparr>)"

fun run :: "sys \<Rightarrow> nat list \<Rightarrow> sys" where
  "run s [] = s"
| "run s (p # ps) = run (sys_step p s) ps"

fun run_events :: "sys \<Rightarrow> nat list \<Rightarrow> (nat \<times> event) list" where
  "run_events s [] = []"
| "run_events s (p # ps) = (p, sys_event p s) # run_events (sys_step p s) ps"


text \<open>How many release signals (stores to \<^verbatim>\<open>sense\<close>, line 235) a run publishes: the episodes
  it completes.\<close>

fun is_release :: "nat \<times> event \<Rightarrow> bool" where
  "is_release (p, Store_sense v) = True"
| "is_release (p, e) = False"

definition releases :: "sys \<Rightarrow> nat list \<Rightarrow> nat" where
  "releases s sched = length (filter is_release (run_events s sched))"

text \<open>The events of one process in a run, in order.\<close>

definition events_of :: "nat \<Rightarrow> sys \<Rightarrow> nat list \<Rightarrow> event list" where
  "events_of p s sched = map snd (filter (\<lambda>x. fst x = p) (run_events s sched))"

section \<open>barrier\_init\_shared\<close>

text \<open>Lines 61 to 66: five stores and a fence, in program order.\<close>

definition barrier_init_events :: "u32 \<Rightarrow> event list" where
  "barrier_init_events n =
     [Store_cycle_count 0,
      Store_barrier_count 0,
      Store_num_processes n,
      Store_sense 0,
      Thread_fence,
      Store_initialized 1]"

text \<open>The shared state before the first event and after each event.\<close>

fun states_after :: "event list \<Rightarrow> cycle_barrier_shared \<Rightarrow> cycle_barrier_shared list" where
  "states_after [] m = [m]"
| "states_after (e # es) m = m # states_after es (apply_event e m)"

definition barrier_init_shared :: "cycle_barrier_shared \<Rightarrow> u32 \<Rightarrow> cycle_barrier_shared" where
  "barrier_init_shared m n = last (states_after (barrier_init_events n) m)"

text \<open>A session as \<^verbatim>\<open>barrier_open\<close> leaves it: the leader has initialised the shared state
  for \<open>n\<close> processes, every process is outside \<^verbatim>\<open>barrier_wait\<close>, has completed no call,
  and its handle expects sense 1 (line 154).\<close>

definition session_start :: "cycle_barrier_shared \<Rightarrow> u32 \<Rightarrow> sys \<Rightarrow> bool" where
  "session_start m0 n s \<longleftrightarrow>
     mem s = barrier_init_shared m0 n \<and>
     (\<forall>p. pc (procs s p) = Idle \<and> local_sense (handle (procs s p)) = 1 \<and>
          returned (procs s p) = [])"

section \<open>barrier\_open and barrier\_close\<close>

text \<open>
  The operating system is a parameter: what each call answers. The polling loops ask
  repeatedly, so \<^verbatim>\<open>open\<close>, \<^verbatim>\<open>fstat\<close> and the load of \<^verbatim>\<open>initialized\<close> answer by the
  number of the attempt, counted from 0.
\<close>

datatype errno = ENOENT | EOTHER

record os_env =
  memalign_ok :: bool
  open_answer :: "nat \<Rightarrow> int \<times> errno"
  ftruncate_answer :: int
  fstat_answer :: "nat \<Rightarrow> int \<times> int"
  mmap_answer :: "nat option"
  strdup_ok :: bool
  initialized_read :: "nat \<Rightarrow> u32"

datatype os_call =
    Posix_memalign
  | Open_path string bool
  | Usleep nat
  | Perror
  | Ftruncate int
  | Fstat int
  | Mmap int
  | Strdup string
  | Atomic event
  | Munmap
  | Close_fd int
  | Unlink string
  | Free_name
  | Free_handle

text \<open>What the process holds: the handle's allocation, the open descriptor, the mapping,
  the copy of the name.\<close>

record resources =
  handle_alloc :: bool
  open_fd :: "int option"
  mapping :: bool
  name_copy :: bool

record open_return =
  opened :: "cycle_barrier option"
  held :: resources
  calls :: "os_call list"
  shared_after :: cycle_barrier_shared

definition max_retries :: nat where
  "max_retries = 1000"

text \<open>\<^verbatim>\<open>sizeof(cycle_barrier_shared)\<close>: five fields, each aligned to 64 bytes.\<close>

definition barrier_mapsize :: int where
  "barrier_mapsize = 320"

text \<open>Lines 99 to 112. The result: whether the loop left through \<^verbatim>\<open>goto err\<close>, the
  descriptor at its exit, and the calls it made.\<close>

function open_loop ::
  "os_env \<Rightarrow> string \<Rightarrow> bool \<Rightarrow> int \<Rightarrow> nat \<Rightarrow> bool \<times> int \<times> os_call list" where
  "open_loop env nm ldr fdv retries =
     (if retries < max_retries then
        (case open_answer env retries of
           (fdv', e) \<Rightarrow>
             if fdv' \<ge> 0 then (False, fdv', [Open_path nm ldr])
             else if \<not> ldr \<and> e = ENOENT then
               (case open_loop env nm ldr fdv' (Suc retries) of
                  (failed, fdv'', tr) \<Rightarrow> (failed, fdv'', Open_path nm ldr # Usleep 10000 # tr))
             else (True, fdv', [Open_path nm ldr, Perror]))
      else (False, fdv, []))"
  by pat_completeness auto
termination
  by (relation "measure (\<lambda>(env, nm, ldr, fdv, retries). max_retries - retries)") auto

declare open_loop.simps [simp del]

text \<open>Lines 129 to 136. The result: \<^verbatim>\<open>retries\<close> at the exit of the loop, and the calls made.\<close>

function size_loop :: "os_env \<Rightarrow> int \<Rightarrow> nat \<Rightarrow> nat \<times> os_call list" where
  "size_loop env fdv retries =
     (if retries < max_retries then
        (case fstat_answer env retries of
           (r, st_size) \<Rightarrow>
             if r = 0 \<and> st_size \<ge> barrier_mapsize then (retries, [Fstat fdv])
             else (case size_loop env fdv (Suc retries) of
                     (retries', tr) \<Rightarrow> (retries', Fstat fdv # Usleep 10000 # tr)))
      else (retries, []))"
  by pat_completeness auto
termination
  by (relation "measure (\<lambda>(env, fdv, retries). max_retries - retries)") auto

declare size_loop.simps [simp del]

text \<open>Lines 163 to 169.\<close>

function init_loop :: "os_env \<Rightarrow> nat \<Rightarrow> nat \<times> os_call list" where
  "init_loop env retries =
     (if retries < max_retries then
        (if initialized_read env retries = 1 then (retries, [Atomic Load_initialized])
         else (case init_loop env (Suc retries) of
                 (retries', tr) \<Rightarrow> (retries', Atomic Load_initialized # Usleep 1000 # tr)))
      else (retries, []))"
  by pat_completeness auto
termination
  by (relation "measure (\<lambda>(env, retries). max_retries - retries)") auto

declare init_loop.simps [simp del]

text \<open>Lines 178 to 183, the label \<^verbatim>\<open>err\<close>; \<open>tr\<close> are the calls made before.\<close>

definition open_err ::
  "int \<Rightarrow> resources \<Rightarrow> os_call list \<Rightarrow> cycle_barrier_shared \<Rightarrow> open_return" where
  "open_err fdv r tr m =
     \<lparr>opened = None,
      held = (if fdv \<ge> 0 then r\<lparr>open_fd := None\<rparr> else r)\<lparr>handle_alloc := False\<rparr>,
      calls = tr @ (if fdv \<ge> 0 then [Close_fd fdv] else []) @ [Free_handle],
      shared_after = m\<rparr>"

text \<open>Lines 150 to 155: the handle after \<^verbatim>\<open>memset\<close> and the six assignments.\<close>

definition filled_handle :: "nat \<Rightarrow> string option \<Rightarrow> int \<Rightarrow> bool \<Rightarrow> cycle_barrier" where
  "filled_handle p nm fdv ldr =
     \<lparr>shm = Some p, name = nm, fd = fdv, is_leader = ldr, local_sense = 1,
      unmap_at_close = True\<rparr>"

definition no_resources :: resources where
  "no_resources = \<lparr>handle_alloc = False, open_fd = None, mapping = False, name_copy = False\<rparr>"

text \<open>\<^verbatim>\<open>barrier_open\<close>. \<open>m\<close> is what the mapped file holds when the leader maps it; the
  follower sees the shared state only through its loads of \<^verbatim>\<open>initialized\<close>.\<close>

definition barrier_open ::
  "os_env \<Rightarrow> cycle_barrier_shared \<Rightarrow> string \<Rightarrow> bool \<Rightarrow> u32 \<Rightarrow> open_return" where
  "barrier_open env m nm ldr n =
     (if \<not> memalign_ok env then open_err (- 1) no_resources [Posix_memalign] m
      else
        let r1 = no_resources\<lparr>handle_alloc := True\<rparr> in
        case open_loop env nm ldr (- 1) 0 of
          (failed, fdv, t1) \<Rightarrow>
            let r2 = (if fdv \<ge> 0 then r1\<lparr>open_fd := Some fdv\<rparr> else r1);
                tr1 = Posix_memalign # t1
            in
            if failed then open_err fdv r2 tr1 m
            else if fdv < 0 then open_err fdv r2 tr1 m
            else
              let (ok, t2) =
                    (if ldr then
                       (0 \<le> ftruncate_answer env,
                        if 0 \<le> ftruncate_answer env then [Ftruncate fdv]
                        else [Ftruncate fdv, Perror])
                     else (case size_loop env fdv 0 of
                             (retries, tr) \<Rightarrow> (\<not> retries \<ge> max_retries, tr)));
                  tr2 = tr1 @ t2
              in
              if \<not> ok then open_err fdv r2 tr2 m
              else
                (case mmap_answer env of
                   None \<Rightarrow> open_err fdv r2 (tr2 @ [Mmap fdv, Perror]) m
                 | Some p \<Rightarrow>
                     let r3 = r2\<lparr>mapping := True, name_copy := strdup_ok env\<rparr>;
                         b = filled_handle p (if strdup_ok env then Some nm else None) fdv ldr;
                         tr3 = tr2 @ [Mmap fdv, Strdup nm]
                     in
                     if ldr then
                       \<lparr>opened = Some b, held = r3,
                        calls = tr3 @ map Atomic (barrier_init_events n),
                        shared_after = barrier_init_shared m n\<rparr>
                     else
                       (case init_loop env 0 of
                          (retries, t4) \<Rightarrow>
                            if retries \<ge> max_retries then open_err fdv r3 (tr3 @ t4) m
                            else \<lparr>opened = Some b, held = r3, calls = tr3 @ t4,
                                  shared_after = m\<rparr>)))"

text \<open>\<^verbatim>\<open>barrier_close\<close>, lines 187 to 205.\<close>

definition barrier_close ::
  "cycle_barrier option \<Rightarrow> resources \<Rightarrow> os_call list \<times> resources" where
  "barrier_close bo r =
     (case bo of
        None \<Rightarrow> ([], r)
      | Some b \<Rightarrow>
          let (t1, r1) =
                (if unmap_at_close b \<and> shm b \<noteq> None then ([Munmap], r\<lparr>mapping := False\<rparr>)
                 else ([], r));
              (t2, r2) =
                (if fd b \<ge> 0 then ([Close_fd (fd b)], r1\<lparr>open_fd := None\<rparr>) else ([], r1));
              t3 = (case name b of
                      Some nm \<Rightarrow> if is_leader b then [Unlink nm] else []
                    | None \<Rightarrow> [])
          in (t1 @ t2 @ t3 @ [Free_name, Free_handle],
              r2\<lparr>name_copy := False, handle_alloc := False\<rparr>))"

text \<open>A valid handle, by the code's own test (the assertions of lines 212, 260, 266, 273
  and 279): the handle is there and its region is mapped. Nothing is asked of \<^verbatim>\<open>name\<close>:
  line 151 does not check what \<^verbatim>\<open>strdup\<close> returns.\<close>

definition valid_handle :: "cycle_barrier \<Rightarrow> bool" where
  "valid_handle b \<longleftrightarrow> shm b \<noteq> None"

text \<open>The three kinds of poll and the sleep, in a list of calls.\<close>

fun is_open_call :: "os_call \<Rightarrow> bool" where
  "is_open_call (Open_path nm ldr) = True"
| "is_open_call c = False"

fun is_fstat_call :: "os_call \<Rightarrow> bool" where
  "is_fstat_call (Fstat fdv) = True"
| "is_fstat_call c = False"

fun is_init_load :: "os_call \<Rightarrow> bool" where
  "is_init_load (Atomic Load_initialized) = True"
| "is_init_load c = False"

fun is_usleep :: "os_call \<Rightarrow> bool" where
  "is_usleep (Usleep d) = True"
| "is_usleep c = False"

section \<open>The invariant of the barrier\<close>

definition sns :: "nat \<Rightarrow> u32" where
  "sns k = (if odd k then 1 else 0)"

definition arrived_pcs :: "wait_pc set" where
  "arrived_pcs = {L221_test_arrived, L225_reset_count, L228_fence, L231_incr_cycle,
                  L235_store_sense, L238_spin}"

definition reset_pcs :: "wait_pc set" where
  "reset_pcs = {L228_fence, L231_incr_cycle, L235_store_sense}"

definition waiter_ok :: "u32 \<Rightarrow> nat \<Rightarrow> waiter \<Rightarrow> bool" where
  "waiter_ok n R b \<longleftrightarrow>
     (length (returned b) = R \<and> pc b \<notin> {L249_fence, L252_flip_sense, L255_load_cycle}
      \<or> Suc (length (returned b)) = R \<and>
        pc b \<in> {L221_test_arrived, L238_spin, L249_fence, L252_flip_sense, L255_load_cycle}) \<and>
     (pc b \<noteq> Idle \<longrightarrow> num_procs b = n) \<and>
     (pc b \<notin> {Idle, L216_read_local_sense} \<longrightarrow> my_sense b = sns (Suc (length (returned b)))) \<and>
     local_sense (handle b) =
       (if pc b = L255_load_cycle then sns (length (returned b))
        else sns (Suc (length (returned b)))) \<and>
     (pc b = L238_spin \<longrightarrow> arrived b \<noteq> n) \<and>
     (pc b = L221_test_arrived \<and> Suc (length (returned b)) = R \<longrightarrow> arrived b \<noteq> n) \<and>
     (pc b \<in> {L225_reset_count, L228_fence, L231_incr_cycle, L235_store_sense} \<longrightarrow> arrived b = n) \<and>
     (\<forall>k < length (returned b). returned b ! k = of_nat (Suc k))"

definition arrived_set :: "u32 \<Rightarrow> nat \<Rightarrow> sys \<Rightarrow> nat set" where
  "arrived_set n R s =
     {p. p < unat n \<and> length (returned (procs s p)) = R \<and> pc (procs s p) \<in> arrived_pcs}"

definition resetting :: "u32 \<Rightarrow> sys \<Rightarrow> bool" where
  "resetting n s \<longleftrightarrow> (\<exists>p < unat n. pc (procs s p) \<in> reset_pcs)"

definition publishing :: "u32 \<Rightarrow> sys \<Rightarrow> bool" where
  "publishing n s \<longleftrightarrow> (\<exists>p < unat n. pc (procs s p) = L235_store_sense)"

definition mem_ok :: "u32 \<Rightarrow> nat \<Rightarrow> sys \<Rightarrow> bool" where
  "mem_ok n R s \<longleftrightarrow>
     num_processes (mem s) = n \<and>
     sense (mem s) = sns R \<and>
     barrier_count (mem s) = (if resetting n s then 0 else of_nat (card (arrived_set n R s))) \<and>
     cycle_count (mem s) = of_nat (if publishing n s then Suc R else R)"

definition waiters_ok :: "u32 \<Rightarrow> nat \<Rightarrow> sys \<Rightarrow> bool" where
  "waiters_ok n R s \<longleftrightarrow> (\<forall>p < unat n. waiter_ok n R (procs s p))"

definition last_sees_all :: "u32 \<Rightarrow> nat \<Rightarrow> sys \<Rightarrow> bool" where
  "last_sees_all n R s \<longleftrightarrow>
     (\<forall>p \<in> arrived_set n R s. arrived (procs s p) = n \<longrightarrow> arrived_set n R s = {..<unat n})"

definition one_last :: "u32 \<Rightarrow> nat \<Rightarrow> sys \<Rightarrow> bool" where
  "one_last n R s \<longleftrightarrow>
     (\<forall>p \<in> arrived_set n R s. \<forall>q \<in> arrived_set n R s.
        arrived (procs s p) = n \<and> arrived (procs s q) = n \<longrightarrow> p = q)"

definition barrier_inv :: "u32 \<Rightarrow> nat \<Rightarrow> sys \<Rightarrow> bool" where
  "barrier_inv n R s \<longleftrightarrow>
     mem_ok n R s \<and> waiters_ok n R s \<and> last_sees_all n R s \<and> one_last n R s"

section \<open>Following one handle through its calls\<close>

text \<open>The expected sense after \<open>k\<close> flips of line 252, starting from \<open>ls\<close>.\<close>

definition flipk :: "u32 \<Rightarrow> nat \<Rightarrow> u32" where
  "flipk ls k = (if even k then ls else 1 - ls)"

text \<open>A process that had completed \<open>n0\<close> calls when its handle expected \<open>ls\<close>: line 252 has
  run once for each call completed since, and once more when the process stands at line 255.\<close>

definition sense_track :: "u32 \<Rightarrow> nat \<Rightarrow> waiter \<Rightarrow> bool" where
  "sense_track ls n0 b \<longleftrightarrow>
     n0 \<le> length (returned b) \<and>
     (pc b = L255_load_cycle \<longrightarrow>
        local_sense (handle b) = flipk ls (Suc (length (returned b) - n0))) \<and>
     (pc b \<noteq> L255_load_cycle \<longrightarrow>
        local_sense (handle b) = flipk ls (length (returned b) - n0)) \<and>
     (pc b \<notin> {Idle, L216_read_local_sense} \<longrightarrow>
        my_sense b = flipk ls (length (returned b) - n0))"

section \<open>A concrete session\<close>

text \<open>A process that has not called \<^verbatim>\<open>barrier_wait\<close> yet; the locals of the call hold
  nothing of interest.\<close>

definition fresh_waiter :: "cycle_barrier \<Rightarrow> waiter" where
  "fresh_waiter h =
     \<lparr>handle = h, pc = Idle, num_procs = 0, my_sense = 0, arrived = 0, returned = []\<rparr>"

text \<open>A file just created and extended by \<^verbatim>\<open>ftruncate\<close> reads as zeros.\<close>

definition zero_shared :: cycle_barrier_shared where
  "zero_shared =
     \<lparr>cycle_count = 0, barrier_count = 0, num_processes = 0, sense = 0, initialized = 0\<rparr>"

text \<open>Process 0 is the leader, the others are followers; all hold handles as
  \<^verbatim>\<open>barrier_open\<close> fills them.\<close>

definition start_sys :: "u32 \<Rightarrow> sys" where
  "start_sys n =
     \<lparr>mem = barrier_init_shared zero_shared n,
      procs = (\<lambda>p. fresh_waiter (filled_handle 0 (Some ''/tmp/barrier'') 3 (p = 0)))\<rparr>"

text \<open>Two processes, one episode: process 0 arrives first and spins, process 1 arrives last
  and releases, process 0 leaves the loop.\<close>

definition two_sched :: "nat list" where
  "two_sched = [0, 0, 0, 0, 1, 1, 1, 1, 1, 1, 1, 1, 1, 1, 1, 0, 0, 0, 0]"

section \<open>One process alone\<close>

text \<open>The eleven steps of one call that takes the releaser branch.\<close>

definition solo_sched :: "nat list" where
  "solo_sched = [0, 0, 0, 0, 0, 0, 0, 0, 0, 0, 0]"

text \<open>What holds at every step of a process that runs alone on a barrier for one process.\<close>

definition solo_inv :: "sys \<Rightarrow> bool" where
  "solo_inv s \<longleftrightarrow>
     num_processes (mem s) = 1 \<and>
     pc (procs s 0) \<noteq> L238_spin \<and>
     barrier_count (mem s) =
       (if pc (procs s 0) \<in> {L221_test_arrived, L225_reset_count} then 1 else 0) \<and>
     cycle_count (mem s) =
       of_nat (if pc (procs s 0) \<in> {L235_store_sense, L249_fence, L252_flip_sense, L255_load_cycle}
               then Suc (length (returned (procs s 0))) else length (returned (procs s 0))) \<and>
     (pc (procs s 0) \<noteq> Idle \<longrightarrow> num_procs (procs s 0) = 1) \<and>
     (pc (procs s 0) \<in> {L221_test_arrived, L225_reset_count, L228_fence, L231_incr_cycle,
                          L235_store_sense} \<longrightarrow> arrived (procs s 0) = 1) \<and>
     (\<forall>i < length (returned (procs s 0)). returned (procs s 0) ! i = of_nat (Suc i))"

text \<open>The session of one process after \<open>2 ^ 64 - 1\<close> calls.\<close>

definition wrap_state :: sys where
  "wrap_state = run (start_sys 1) (concat (replicate (2 ^ 64 - 1) solo_sched))"

section \<open>Calls that do not overlap\<close>





section \<open>Counting the increments of the cycle counter\<close>

text \<open>How many times a run executes the add of line 231.\<close>

fun is_cycle_incr :: "nat \<times> event \<Rightarrow> bool" where
  "is_cycle_incr (p, Add_fetch_cycle_count v) = True"
| "is_cycle_incr (p, e) = False"

definition incrs :: "sys \<Rightarrow> nat list \<Rightarrow> nat" where
  "incrs s sched = length (filter is_cycle_incr (run_events s sched))"

section \<open>Concrete operating systems\<close>

text \<open>The leader never creates the file: every \<^verbatim>\<open>open\<close> fails with \<^verbatim>\<open>ENOENT\<close>, and nothing
  else would succeed either.\<close>

definition never_env :: os_env where
  "never_env =
     \<lparr>memalign_ok = True, open_answer = (\<lambda>i. (- 1, ENOENT)), ftruncate_answer = 0,
      fstat_answer = (\<lambda>i. (- 1, 0)), mmap_answer = None, strdup_ok = True,
      initialized_read = (\<lambda>i. 0)\<rparr>"

text \<open>The file is there and has its size, the mapping succeeds, but \<^verbatim>\<open>initialized\<close> stays 0:
  the leader died between \<^verbatim>\<open>ftruncate\<close> and \<^verbatim>\<open>barrier_init_shared\<close>.\<close>

definition stalled_env :: os_env where
  "stalled_env =
     \<lparr>memalign_ok = True, open_answer = (\<lambda>i. (3, ENOENT)), ftruncate_answer = 0,
      fstat_answer = (\<lambda>i. (0, 320)), mmap_answer = Some 4096, strdup_ok = True,
      initialized_read = (\<lambda>i. 0)\<rparr>"

text \<open>Every call succeeds at once.\<close>

definition good_env :: os_env where
  "good_env =
     \<lparr>memalign_ok = True, open_answer = (\<lambda>i. (3, ENOENT)), ftruncate_answer = 0,
      fstat_answer = (\<lambda>i. (0, 320)), mmap_answer = Some 4096, strdup_ok = True,
      initialized_read = (\<lambda>i. 1)\<rparr>"

text \<open>Every call succeeds at once, except \<^verbatim>\<open>strdup\<close>, which returns \<^verbatim>\<open>NULL\<close>.\<close>

definition nostrdup_env :: os_env where
  "nostrdup_env =
     \<lparr>memalign_ok = True, open_answer = (\<lambda>i. (3, ENOENT)), ftruncate_answer = 0,
      fstat_answer = (\<lambda>i. (0, 320)), mmap_answer = Some 4096, strdup_ok = False,
      initialized_read = (\<lambda>i. 1)\<rparr>"

subsection \<open>The calls of a polling loop\<close>

text \<open>\<open>k\<close> failed checks \<open>c\<close>, each followed by the sleep \<open>sl\<close>: what a polling loop of
  \<^verbatim>\<open>barrier_open\<close> does before the check that ends it.\<close>

definition polls :: "os_call \<Rightarrow> os_call \<Rightarrow> nat \<Rightarrow> os_call list" where
  "polls c sl k = concat (replicate k [c, sl])"

text \<open>An operating system where the leader is slow: the file appears at the third \<^verbatim>\<open>open\<close>,
  has its size at the second \<^verbatim>\<open>fstat\<close>, and \<^verbatim>\<open>initialized\<close> reads 1 at the fourth load.\<close>

definition slow_env :: os_env where
  "slow_env =
     \<lparr>memalign_ok = True,
      open_answer = (\<lambda>i. if i < 2 then (- 1, ENOENT) else (3, ENOENT)),
      ftruncate_answer = 0,
      fstat_answer = (\<lambda>i. if i < 1 then (0, 0) else (0, 320)),
      mmap_answer = Some 4096, strdup_ok = True,
      initialized_read = (\<lambda>i. if i < 3 then 0 else 1)\<rparr>"

section \<open>A process that joins after the first episode\<close>

text \<open>
  The leader opens for one process and completes one wait. Then it sets \<^verbatim>\<open>num_processes\<close>
  to 2 with \<^verbatim>\<open>barrier_set_num_processes\<close>, while nobody is inside \<^verbatim>\<open>barrier_wait\<close>, and a
  second process opens the barrier as a follower: process 1 holds the handle that
  \<^verbatim>\<open>barrier_open\<close> returns at that moment.
\<close>

definition late_join_state :: sys where
  "late_join_state =
     (let s1 = run (start_sys 1) solo_sched;
          m2 = snd (barrier_set_num_processes (mem s1) 2)
      in \<lparr>mem = m2,
          procs = (procs s1)
            (1 := fresh_waiter
                    (the (opened (barrier_open good_env m2 ''/tmp/barrier'' False 0))))\<rparr>)"

text \<open>Episode 2: the follower arrives first, the leader arrives last and stands before its
  reset; the follower leaves the loop and returns; the leader releases and returns.\<close>

definition late_join_sched :: "nat list" where
  "late_join_sched = [1, 1, 1, 1, 0, 0, 0, 0, 1, 1, 1, 1, 0, 0, 0, 0, 0, 0, 0]"

text \<open>The follower makes one wait call alone, then a second one up to the reset of line
  225; then the leader enters and makes its fetch-add.\<close>

definition late_count_sched :: "nat list" where
  "late_count_sched = [1, 1, 1, 1, 1, 1, 1, 1, 1, 1, 1, 1, 0, 0, 0]"

section \<open>Steps and runs\<close>

lemma sys_step_procs_other: "q \<noteq> p \<Longrightarrow> procs (sys_step p s) q = procs s q"
  by (simp add: sys_step_def split: prod.splits)

lemma sys_step_procs_self:
  "procs (sys_step p s) p = snd (snd (barrier_wait_step (mem s) (procs s p)))"
  by (simp add: sys_step_def split: prod.splits)

lemma sys_step_mem: "mem (sys_step p s) = fst (snd (barrier_wait_step (mem s) (procs s p)))"
  by (simp add: sys_step_def split: prod.splits)

lemma run_append: "run s (xs @ ys) = run (run s xs) ys"
  by (induction xs arbitrary: s) simp_all

lemma barrier_init_shared_eq:
  "barrier_init_shared m n =
     \<lparr>cycle_count = 0, barrier_count = 0, num_processes = n, sense = 0, initialized = 1\<rparr>"
  by (simp add: barrier_init_shared_def barrier_init_events_def)

lemma session_start_start_sys: "session_start zero_shared n (start_sys n)"
  by (simp add: session_start_def start_sys_def fresh_waiter_def filled_handle_def)

lemmas run_simps = two_sched_def start_sys_def fresh_waiter_def filled_handle_def zero_shared_def
  barrier_init_shared_eq sys_step_def barrier_wait_step_def

section \<open>The expected sense of a handle\<close>

lemma flipk_Suc: "flipk ls (Suc k) = 1 - flipk ls k"
  by (simp add: flipk_def)

lemma sense_track_step:
  "sense_track ls n0 b \<Longrightarrow> sense_track ls n0 (snd (snd (barrier_wait_step m b)))"
  by (cases "pc b") (auto simp: sense_track_def barrier_wait_step_def flipk_Suc Suc_diff_le)

lemma sense_track_run:
  "sense_track ls n0 (procs s p) \<Longrightarrow> sense_track ls n0 (procs (run s sched) p)"
proof (induction sched arbitrary: s)
  case Nil
  then show ?case by simp
next
  case (Cons q sched)
  have "sense_track ls n0 (procs (sys_step q s) p)"
  proof (cases "q = p")
    case True
    then show ?thesis using Cons.prems by (simp add: sys_step_procs_self sense_track_step)
  next
    case False
    then show ?thesis using Cons.prems by (simp add: sys_step_procs_other)
  qed
  then show ?case using Cons.IH by simp
qed

lemma sense_track_Idle:
  "pc b = Idle \<Longrightarrow> sense_track (local_sense (handle b)) (length (returned b)) b"
  by (simp add: sense_track_def flipk_def)

section \<open>The invariant is kept by every step\<close>

lemma barrier_invI:
  "mem_ok n R s \<Longrightarrow> waiters_ok n R s \<Longrightarrow> last_sees_all n R s \<Longrightarrow> one_last n R s \<Longrightarrow>
   barrier_inv n R s"
  by (simp add: barrier_inv_def)

lemma inv_mem_ok: "barrier_inv n R s \<Longrightarrow> mem_ok n R s"
  and inv_waiters_ok: "barrier_inv n R s \<Longrightarrow> waiters_ok n R s"
  and inv_last_sees_all: "barrier_inv n R s \<Longrightarrow> last_sees_all n R s"
  and inv_one_last: "barrier_inv n R s \<Longrightarrow> one_last n R s"
  by (simp_all add: barrier_inv_def)

lemma inv_waiter: "barrier_inv n R s \<Longrightarrow> p < unat n \<Longrightarrow> waiter_ok n R (procs s p)"
  by (simp add: barrier_inv_def waiters_ok_def)

lemma last_sees_allD:
  "last_sees_all n R s \<Longrightarrow> p \<in> arrived_set n R s \<Longrightarrow> arrived (procs s p) = n \<Longrightarrow>
   arrived_set n R s = {..<unat n}"
  unfolding last_sees_all_def by (drule (1) bspec) (erule (1) mp)

lemma one_lastD:
  "one_last n R s \<Longrightarrow> p \<in> arrived_set n R s \<Longrightarrow> q \<in> arrived_set n R s \<Longrightarrow>
   arrived (procs s p) = n \<Longrightarrow> arrived (procs s q) = n \<Longrightarrow> p = q"
  unfolding one_last_def by (drule (1) bspec, drule (1) bspec) simp

lemma sns_Suc: "sns (Suc k) = 1 - sns k"
  by (simp add: sns_def)

lemma sns_Suc_neq: "sns (Suc k) \<noteq> sns k"
  by (simp add: sns_def)

lemma sns_Suc_Suc: "sns (Suc (Suc k)) = sns k"
  by (simp add: sns_def)

lemma arrived_set_subset: "arrived_set n R s \<subseteq> {..<unat n}"
  by (auto simp: arrived_set_def)

lemma arrived_set_finite: "finite (arrived_set n R s)"
  by (rule finite_subset[OF arrived_set_subset]) simp

lemma arrived_set_upd:
  "arrived_set n R (s\<lparr>mem := m', procs := (procs s)(p := b')\<rparr>) =
     (if p < unat n \<and> length (returned b') = R \<and> pc b' \<in> arrived_pcs
      then insert p (arrived_set n R s) else arrived_set n R s - {p})"
  by (auto simp: arrived_set_def)

lemma resetting_upd:
  "p < unat n \<Longrightarrow> resetting n (s\<lparr>mem := m', procs := (procs s)(p := b')\<rparr>) \<longleftrightarrow>
     pc b' \<in> reset_pcs \<or> (\<exists>q < unat n. q \<noteq> p \<and> pc (procs s q) \<in> reset_pcs)"
  unfolding resetting_def by (simp, metis)

lemma publishing_upd:
  "p < unat n \<Longrightarrow> publishing n (s\<lparr>mem := m', procs := (procs s)(p := b')\<rparr>) \<longleftrightarrow>
     pc b' = L235_store_sense \<or> (\<exists>q < unat n. q \<noteq> p \<and> pc (procs s q) = L235_store_sense)"
  unfolding publishing_def by (simp, metis)

lemma resetting_split:
  "p < unat n \<Longrightarrow> resetting n s \<longleftrightarrow>
     pc (procs s p) \<in> reset_pcs \<or> (\<exists>q < unat n. q \<noteq> p \<and> pc (procs s q) \<in> reset_pcs)"
  unfolding resetting_def by metis

lemma publishing_split:
  "p < unat n \<Longrightarrow> publishing n s \<longleftrightarrow>
     pc (procs s p) = L235_store_sense \<or> (\<exists>q < unat n. q \<noteq> p \<and> pc (procs s q) = L235_store_sense)"
  unfolding publishing_def by metis

text \<open>A process in the releaser branch has seen the last arrival: everyone has arrived.\<close>

lemma releaser_all_arrived:
  assumes inv: "barrier_inv n R s" and q: "q < unat n"
    and pcq: "pc (procs s q) \<in> {L225_reset_count, L228_fence, L231_incr_cycle, L235_store_sense}"
  shows "arrived_set n R s = {..<unat n}" and "arrived (procs s q) = n" and "q \<in> arrived_set n R s"
proof -
  have ok: "waiter_ok n R (procs s q)" using inv q by (rule inv_waiter)
  show arr: "arrived (procs s q) = n"
    using ok pcq by (cases "pc (procs s q)") (simp_all add: waiter_ok_def)
  have "length (returned (procs s q)) = R"
    using ok pcq by (cases "pc (procs s q)") (simp_all add: waiter_ok_def)
  moreover have "pc (procs s q) \<in> arrived_pcs"
    using pcq by (cases "pc (procs s q)") (simp_all add: arrived_pcs_def)
  ultimately show qA: "q \<in> arrived_set n R s" using q by (simp add: arrived_set_def)
  show "arrived_set n R s = {..<unat n}"
    using inv_last_sees_all[OF inv] qA arr by (rule last_sees_allD)
qed

lemma not_arrived_no_releaser:
  assumes inv: "barrier_inv n R s" and p: "p < unat n" and pA: "p \<notin> arrived_set n R s"
  shows "\<not> resetting n s" and "\<not> publishing n s"
    and "\<And>q. q \<in> arrived_set n R s \<Longrightarrow> arrived (procs s q) \<noteq> n"
proof -
  have ne: "arrived_set n R s \<noteq> {..<unat n}" using p pA by auto
  show "\<not> resetting n s"
  proof
    assume "resetting n s"
    then obtain q where "q < unat n" "pc (procs s q) \<in> reset_pcs"
      unfolding resetting_def by blast
    then show False using releaser_all_arrived(1)[OF inv, of q] ne by (simp add: reset_pcs_def)
  qed
  show "\<not> publishing n s"
  proof
    assume "publishing n s"
    then obtain q where "q < unat n" "pc (procs s q) = L235_store_sense"
      unfolding publishing_def by blast
    then show False using releaser_all_arrived(1)[OF inv, of q] ne by simp
  qed
  show "arrived (procs s q) \<noteq> n" if "q \<in> arrived_set n R s" for q
    using last_sees_allD[OF inv_last_sees_all[OF inv] that] ne by blast
qed


lemmas pc_simps = barrier_wait_step_def sys_step_def waiter_ok_def arrived_pcs_def reset_pcs_def

text \<open>A step that leaves the shared state alone and keeps the process on the same side of
  every set the invariant counts.\<close>

lemma quiet_step:
  assumes inv: "barrier_inv n R s" and p: "p < unat n"
    and ok: "waiter_ok n R b'"
    and A: "(length (returned b') = R \<and> pc b' \<in> arrived_pcs) \<longleftrightarrow>
            (length (returned (procs s p)) = R \<and> pc (procs s p) \<in> arrived_pcs)"
    and arr: "arrived b' = arrived (procs s p)"
    and rs: "pc b' \<in> reset_pcs \<longleftrightarrow> pc (procs s p) \<in> reset_pcs"
    and pb: "pc b' = L235_store_sense \<longleftrightarrow> pc (procs s p) = L235_store_sense"
  shows "barrier_inv n R (s\<lparr>mem := mem s, procs := (procs s)(p := b')\<rparr>)"
proof -
  let ?s' = "s\<lparr>mem := mem s, procs := (procs s)(p := b')\<rparr>"
  have A_eq: "arrived_set n R ?s' = arrived_set n R s"
    using A p by (auto simp: arrived_set_def)
  have rs_eq: "resetting n ?s' = resetting n s"
    using rs by (simp only: resetting_upd[OF p] resetting_split[OF p, of s])
  have pb_eq: "publishing n ?s' = publishing n s"
    using pb by (simp only: publishing_upd[OF p] publishing_split[OF p, of s])
  have arr_eq: "\<And>q. arrived (procs ?s' q) = arrived (procs s q)"
    using arr by simp
  have m: "mem ?s' = mem s" by simp
  show ?thesis
  proof (rule barrier_invI)
    show "mem_ok n R ?s'"
      using inv_mem_ok[OF inv] unfolding mem_ok_def A_eq rs_eq pb_eq m .
    show "waiters_ok n R ?s'"
      using inv_waiters_ok[OF inv] ok by (simp add: waiters_ok_def)
    show "last_sees_all n R ?s'"
      using inv_last_sees_all[OF inv] unfolding last_sees_all_def A_eq arr_eq .
    show "one_last n R ?s'"
      using inv_one_last[OF inv] unfolding one_last_def A_eq arr_eq .
  qed
qed

lemma step_Idle:
  assumes "barrier_inv n R s" "p < unat n" "pc (procs s p) = Idle"
  shows "barrier_inv n R (sys_step p s)"
proof -
  have ok: "waiter_ok n R (procs s p)" using assms(1,2) by (rule inv_waiter)
  have np: "num_processes (mem s) = n" using inv_mem_ok[OF assms(1)] by (simp add: mem_ok_def)
  have "barrier_inv n R (s\<lparr>mem := mem s, procs := (procs s)(p := (procs s p)\<lparr>num_procs := num_processes (mem s), pc := L216_read_local_sense\<rparr>)\<rparr>)"
    by (rule quiet_step[OF assms(1,2)]) (use ok np assms(3) in \<open>simp_all add: pc_simps\<close>)
  then show ?thesis using assms(3) by (simp add: pc_simps)
qed

lemma step_L216:
  assumes "barrier_inv n R s" "p < unat n" "pc (procs s p) = L216_read_local_sense"
  shows "barrier_inv n R (sys_step p s)"
proof -
  have ok: "waiter_ok n R (procs s p)" using assms(1,2) by (rule inv_waiter)
  have "barrier_inv n R (s\<lparr>mem := mem s, procs := (procs s)(p := (procs s p)\<lparr>my_sense := local_sense (handle (procs s p)), pc := L219_add_fetch_count\<rparr>)\<rparr>)"
    by (rule quiet_step[OF assms(1,2)]) (use ok assms(3) in \<open>simp_all add: pc_simps\<close>)
  then show ?thesis using assms(3) by (simp add: pc_simps)
qed

lemma step_L221:
  assumes "barrier_inv n R s" "p < unat n" "pc (procs s p) = L221_test_arrived"
  shows "barrier_inv n R (sys_step p s)"
proof -
  have ok: "waiter_ok n R (procs s p)" using assms(1,2) by (rule inv_waiter)
  have "barrier_inv n R (s\<lparr>mem := mem s, procs := (procs s)(p := (procs s p)\<lparr>pc := (if arrived (procs s p) = num_procs (procs s p) then L225_reset_count else L238_spin)\<rparr>)\<rparr>)"
    by (rule quiet_step[OF assms(1,2)]) (use ok assms(3) in \<open>auto simp add: pc_simps\<close>)
  then show ?thesis using assms(3) by (simp add: pc_simps)
qed

lemma step_L228:
  assumes "barrier_inv n R s" "p < unat n" "pc (procs s p) = L228_fence"
  shows "barrier_inv n R (sys_step p s)"
proof -
  have ok: "waiter_ok n R (procs s p)" using assms(1,2) by (rule inv_waiter)
  have "barrier_inv n R (s\<lparr>mem := mem s, procs := (procs s)(p := (procs s p)\<lparr>pc := L231_incr_cycle\<rparr>)\<rparr>)"
    by (rule quiet_step[OF assms(1,2)]) (use ok assms(3) in \<open>simp_all add: pc_simps\<close>)
  then show ?thesis using assms(3) by (simp add: pc_simps)
qed

lemma step_L238:
  assumes "barrier_inv n R s" "p < unat n" "pc (procs s p) = L238_spin"
  shows "barrier_inv n R (sys_step p s)"
proof -
  have ok: "waiter_ok n R (procs s p)" using assms(1,2) by (rule inv_waiter)
  have sn: "sense (mem s) = sns R" using inv_mem_ok[OF assms(1)] by (simp add: mem_ok_def)
  show ?thesis
  proof (cases "sense (mem s) \<noteq> my_sense (procs s p)")
    case True
    have e: "(procs s p)\<lparr>pc := L238_spin\<rparr> = procs s p"
      using assms(3) by simp
    have "sys_step p s = s\<lparr>procs := (procs s)(p := (procs s p)\<lparr>pc := L238_spin\<rparr>)\<rparr>"
      using assms(3) True by (simp add: pc_simps)
    then have "sys_step p s = s"
      by (simp add: e)
    then show ?thesis using assms(1) by simp
  next
    case False
    then have R: "Suc (length (returned (procs s p))) = R"
      using ok sn assms(3) sns_Suc_neq[of R] by (auto simp: waiter_ok_def)
    have "barrier_inv n R (s\<lparr>mem := mem s, procs := (procs s)(p := (procs s p)\<lparr>pc := L249_fence\<rparr>)\<rparr>)"
      by (rule quiet_step[OF assms(1,2)]) (use ok R assms(3) in \<open>auto simp add: pc_simps\<close>)
    then show ?thesis using assms(3) False by (simp add: pc_simps)
  qed
qed

lemma step_L249:
  assumes "barrier_inv n R s" "p < unat n" "pc (procs s p) = L249_fence"
  shows "barrier_inv n R (sys_step p s)"
proof -
  have ok: "waiter_ok n R (procs s p)" using assms(1,2) by (rule inv_waiter)
  have "barrier_inv n R (s\<lparr>mem := mem s, procs := (procs s)(p := (procs s p)\<lparr>pc := L252_flip_sense\<rparr>)\<rparr>)"
    by (rule quiet_step[OF assms(1,2)]) (use ok assms(3) in \<open>simp_all add: pc_simps\<close>)
  then show ?thesis using assms(3) by (simp add: pc_simps)
qed

lemma step_L252:
  assumes "barrier_inv n R s" "p < unat n" "pc (procs s p) = L252_flip_sense"
  shows "barrier_inv n R (sys_step p s)"
proof -
  have ok: "waiter_ok n R (procs s p)" using assms(1,2) by (rule inv_waiter)
  then have R: "R = Suc (length (returned (procs s p)))"
    using assms(3) by (auto simp: waiter_ok_def)
  have "barrier_inv n R (s\<lparr>mem := mem s, procs := (procs s)(p := (procs s p)\<lparr>handle := (handle (procs s p))\<lparr>local_sense := 1 - my_sense (procs s p)\<rparr>, pc := L255_load_cycle\<rparr>)\<rparr>)"
    by (rule quiet_step[OF assms(1,2)]) (use ok assms(3) R in \<open>simp_all add: pc_simps sns_Suc\<close>)
  then show ?thesis using assms(3) by (simp add: pc_simps)
qed

lemma step_L255:
  assumes "barrier_inv n R s" "p < unat n" "pc (procs s p) = L255_load_cycle"
  shows "barrier_inv n R (sys_step p s)"
proof -
  have ok: "waiter_ok n R (procs s p)" using assms(1,2) by (rule inv_waiter)
  then have R: "Suc (length (returned (procs s p))) = R"
    using assms(3) by (auto simp: waiter_ok_def)
  then have "p \<notin> arrived_set n R s" by (auto simp: arrived_set_def)
  then have "\<not> publishing n s" by (rule not_arrived_no_releaser(2)[OF assms(1,2)])
  then have cc: "cycle_count (mem s) = of_nat R"
    using inv_mem_ok[OF assms(1)] by (simp add: mem_ok_def)
  have "barrier_inv n R (s\<lparr>mem := mem s, procs := (procs s)(p := (procs s p)\<lparr>returned := returned (procs s p) @ [cycle_count (mem s)], pc := Idle\<rparr>)\<rparr>)"
    by (rule quiet_step[OF assms(1,2)])
      (use ok assms(3) R cc in \<open>auto simp add: pc_simps sns_Suc_Suc nth_append less_Suc_eq\<close>)
  then show ?thesis using assms(3) by (simp add: pc_simps)
qed


lemma step_L225:
  assumes inv: "barrier_inv n R s" and p: "p < unat n" and pcp: "pc (procs s p) = L225_reset_count"
  shows "barrier_inv n R (sys_step p s)"
proof -
  let ?b' = "(procs s p)\<lparr>pc := L228_fence\<rparr>"
  let ?s' = "s\<lparr>mem := (mem s)\<lparr>barrier_count := 0\<rparr>, procs := (procs s)(p := ?b')\<rparr>"
  have step: "sys_step p s = ?s'" using pcp by (simp add: pc_simps)
  have ok: "waiter_ok n R (procs s p)" using inv p by (rule inv_waiter)
  have len: "length (returned (procs s p)) = R" using ok pcp by (simp add: waiter_ok_def)
  have A_eq: "arrived_set n R ?s' = arrived_set n R s"
    using p pcp len by (auto simp: arrived_set_def arrived_pcs_def)
  have rs: "resetting n ?s'"
    by (simp add: resetting_upd[OF p] reset_pcs_def)
  have pb: "publishing n ?s' = publishing n s"
    using pcp by (simp add: publishing_upd[OF p] publishing_split[OF p, of s])
  have arr_eq: "\<And>q. arrived (procs ?s' q) = arrived (procs s q)" by simp
  have ok': "waiter_ok n R ?b'" using ok pcp by (simp add: waiter_ok_def)
  have "barrier_inv n R ?s'"
  proof (rule barrier_invI)
    show "mem_ok n R ?s'"
      using inv_mem_ok[OF inv] rs unfolding mem_ok_def pb by simp
    show "waiters_ok n R ?s'"
      using inv_waiters_ok[OF inv] ok' by (simp add: waiters_ok_def)
    show "last_sees_all n R ?s'"
      using inv_last_sees_all[OF inv] unfolding last_sees_all_def A_eq arr_eq .
    show "one_last n R ?s'"
      using inv_one_last[OF inv] unfolding one_last_def A_eq arr_eq .
  qed
  then show ?thesis by (simp only: step)
qed

lemma step_L231:
  assumes inv: "barrier_inv n R s" and p: "p < unat n" and pcp: "pc (procs s p) = L231_incr_cycle"
  shows "barrier_inv n R (sys_step p s)"
proof -
  let ?b' = "(procs s p)\<lparr>pc := L235_store_sense\<rparr>"
  let ?s' = "s\<lparr>mem := (mem s)\<lparr>cycle_count := cycle_count (mem s) + 1\<rparr>, procs := (procs s)(p := ?b')\<rparr>"
  have step: "sys_step p s = ?s'" using pcp by (simp add: pc_simps)
  have ok: "waiter_ok n R (procs s p)" using inv p by (rule inv_waiter)
  have len: "length (returned (procs s p)) = R" using ok pcp by (simp add: waiter_ok_def)
  have A_eq: "arrived_set n R ?s' = arrived_set n R s"
    using p pcp len by (auto simp: arrived_set_def arrived_pcs_def)
  have rs0: "resetting n s"
    unfolding resetting_def reset_pcs_def using p pcp by auto
  have rs: "resetting n ?s'"
    by (simp add: resetting_upd[OF p] reset_pcs_def)
  have pA: "p \<in> arrived_set n R s" and parr: "arrived (procs s p) = n"
    using releaser_all_arrived(2,3)[OF inv p] pcp by simp_all
  have npb: "\<not> publishing n s"
  proof
    assume "publishing n s"
    then obtain q where q: "q < unat n" and pcq: "pc (procs s q) = L235_store_sense"
      unfolding publishing_def by blast
    have "q \<in> arrived_set n R s" "arrived (procs s q) = n"
      using releaser_all_arrived(2,3)[OF inv q] pcq by simp_all
    then have "q = p" using one_lastD[OF inv_one_last[OF inv] _ pA _ parr] by simp
    then show False using pcq pcp by simp
  qed
  have pb: "publishing n ?s'"
    by (simp add: publishing_upd[OF p])
  have arr_eq: "\<And>q. arrived (procs ?s' q) = arrived (procs s q)" by simp
  have ok': "waiter_ok n R ?b'" using ok pcp by (simp add: waiter_ok_def)
  have "barrier_inv n R ?s'"
  proof (rule barrier_invI)
    show "mem_ok n R ?s'"
      using inv_mem_ok[OF inv] rs rs0 pb npb unfolding mem_ok_def by simp
    show "waiters_ok n R ?s'"
      using inv_waiters_ok[OF inv] ok' by (simp add: waiters_ok_def)
    show "last_sees_all n R ?s'"
      using inv_last_sees_all[OF inv] unfolding last_sees_all_def A_eq arr_eq .
    show "one_last n R ?s'"
      using inv_one_last[OF inv] unfolding one_last_def A_eq arr_eq .
  qed
  then show ?thesis by (simp only: step)
qed

lemma step_L219:
  assumes inv: "barrier_inv n R s" and p: "p < unat n" and pcp: "pc (procs s p) = L219_add_fetch_count"
  shows "barrier_inv n R (sys_step p s)"
proof -
  let ?A = "arrived_set n R s"
  let ?b' = "(procs s p)\<lparr>arrived := barrier_count (mem s) + 1, pc := L221_test_arrived\<rparr>"
  let ?s' = "s\<lparr>mem := (mem s)\<lparr>barrier_count := barrier_count (mem s) + 1\<rparr>, procs := (procs s)(p := ?b')\<rparr>"
  have step: "sys_step p s = ?s'" using pcp by (simp add: pc_simps)
  have ok: "waiter_ok n R (procs s p)" using inv p by (rule inv_waiter)
  have len: "length (returned (procs s p)) = R" using ok pcp by (simp add: waiter_ok_def)
  have pA: "p \<notin> ?A" using pcp by (simp add: arrived_set_def arrived_pcs_def)
  note none = not_arrived_no_releaser[OF inv p pA]
  have bc: "barrier_count (mem s) = of_nat (card ?A)"
    using inv_mem_ok[OF inv] none(1) by (simp add: mem_ok_def)
  have A_eq: "arrived_set n R ?s' = insert p ?A"
    using p len by (simp add: arrived_set_upd arrived_pcs_def)
  have card': "card (insert p ?A) = Suc (card ?A)"
    using pA arrived_set_finite by simp
  have sub: "insert p ?A \<subseteq> {..<unat n}" using p arrived_set_subset[of n R s] by auto
  then have "card (insert p ?A) \<le> card {..<unat n}" by (intro card_mono) simp_all
  then have le: "Suc (card ?A) \<le> unat n" using card' by simp
  have full: "insert p ?A = {..<unat n}" if "barrier_count (mem s) + 1 = n"
  proof -
    have "unat (of_nat (Suc (card ?A)) :: u32) = Suc (card ?A)"
      using le by (rule le_unat_uoi)
    moreover have "(of_nat (Suc (card ?A)) :: u32) = n" using that bc by (simp add: add.commute)
    ultimately have "card (insert p ?A) = card {..<unat n}" using card' by simp
    then show ?thesis
      using sub by (intro card_subset_eq) simp_all
  qed
  have rs: "\<not> resetting n ?s'"
    using none(1) by (simp add: resetting_upd[OF p] reset_pcs_def resetting_def)
  have pb: "\<not> publishing n ?s'"
    using none(2) by (simp add: publishing_upd[OF p] publishing_def)
  have ok': "waiter_ok n R ?b'" using ok pcp len by (simp add: waiter_ok_def)
  have arr_q: "\<And>q. q \<in> ?A \<Longrightarrow> arrived (procs ?s' q) \<noteq> n"
    using none(3) pA by auto
  have only_p: "q = p \<and> barrier_count (mem s) + 1 = n"
    if "q \<in> insert p ?A" and "arrived (procs ?s' q) = n" for q
  proof (cases "q = p")
    case True
    then show ?thesis using that(2) by simp
  next
    case False
    then have "q \<in> ?A" using that(1) by simp
    then show ?thesis using arr_q that(2) by simp
  qed
  have "barrier_inv n R ?s'"
  proof (rule barrier_invI)
    show "mem_ok n R ?s'"
      unfolding mem_ok_def A_eq card'
      using inv_mem_ok[OF inv] rs pb bc none(2) by (simp add: mem_ok_def)
    show "waiters_ok n R ?s'"
      using inv_waiters_ok[OF inv] ok' by (simp add: waiters_ok_def)
    show "last_sees_all n R ?s'"
      unfolding last_sees_all_def A_eq
    proof (intro ballI impI)
      fix q assume "q \<in> insert p ?A" "arrived (procs ?s' q) = n"
      then have "barrier_count (mem s) + 1 = n" using only_p by blast
      then show "insert p ?A = {..<unat n}" by (rule full)
    qed
    show "one_last n R ?s'"
      unfolding one_last_def A_eq
    proof (intro ballI impI)
      fix q r
      assume "q \<in> insert p ?A" "r \<in> insert p ?A"
        and "arrived (procs ?s' q) = n \<and> arrived (procs ?s' r) = n"
      then have "q = p" "r = p" using only_p by blast+
      then show "q = r" by simp
    qed
  qed
  then show ?thesis by (simp only: step)
qed

lemma step_L235:
  assumes inv: "barrier_inv n R s" and p: "p < unat n" and pcp: "pc (procs s p) = L235_store_sense"
  shows "barrier_inv n (Suc R) (sys_step p s)"
proof -
  let ?A = "arrived_set n R s"
  let ?b' = "(procs s p)\<lparr>pc := L249_fence\<rparr>"
  let ?s' = "s\<lparr>mem := (mem s)\<lparr>sense := my_sense (procs s p)\<rparr>, procs := (procs s)(p := ?b')\<rparr>"
  have step: "sys_step p s = ?s'" using pcp by (simp add: pc_simps)
  have ok: "waiter_ok n R (procs s p)" using inv p by (rule inv_waiter)
  have len: "length (returned (procs s p)) = R" using ok pcp by (simp add: waiter_ok_def)
  have all: "?A = {..<unat n}" and parr: "arrived (procs s p) = n" and pA: "p \<in> ?A"
    using releaser_all_arrived[OF inv p] pcp by simp_all
  have others: "length (returned (procs s q)) = R \<and> pc (procs s q) \<in> {L221_test_arrived, L238_spin}
                  \<and> arrived (procs s q) \<noteq> n"
    if q: "q < unat n" and qp: "q \<noteq> p" for q
  proof -
    have qA: "q \<in> ?A" using all q by simp
    have okq: "waiter_ok n R (procs s q)" using inv q by (rule inv_waiter)
    have ne: "arrived (procs s q) \<noteq> n"
      using one_lastD[OF inv_one_last[OF inv] qA pA _ parr] qp by blast
    from qA have "length (returned (procs s q)) = R" "pc (procs s q) \<in> arrived_pcs"
      by (simp_all add: arrived_set_def)
    then show ?thesis using ne okq
      by (cases "pc (procs s q)") (simp_all add: waiter_ok_def arrived_pcs_def)
  qed
  have ok': "waiter_ok n (Suc R) ?b'" using ok pcp len by (simp add: waiter_ok_def)
  have okq': "waiter_ok n (Suc R) (procs s q)" if q: "q < unat n" and qp: "q \<noteq> p" for q
  proof -
    have okq: "waiter_ok n R (procs s q)" using inv q by (rule inv_waiter)
    show ?thesis using okq others[OF q qp]
      by (cases "pc (procs s q)") (simp_all add: waiter_ok_def)
  qed
  have others_pc: "\<forall>q. q < unat n \<and> q \<noteq> p \<longrightarrow> pc (procs s q) \<in> {L221_test_arrived, L238_spin}"
    using others by blast
  have A_eq: "arrived_set n (Suc R) ?s' = {}"
    using others len by (auto simp: arrived_set_def)
  have rs: "\<not> resetting n ?s'"
    using others_pc by (auto simp add: resetting_upd[OF p] reset_pcs_def)
  have pb: "\<not> publishing n ?s'"
    using others_pc by (auto simp add: publishing_upd[OF p])
  have rs0: "resetting n s" and pb0: "publishing n s"
    unfolding resetting_def publishing_def reset_pcs_def using p pcp by auto
  have sn: "sense (mem ?s') = sns (Suc R)"
    using ok pcp len by (simp add: waiter_ok_def)
  have "barrier_inv n (Suc R) ?s'"
  proof (rule barrier_invI)
    show "mem_ok n (Suc R) ?s'"
      unfolding mem_ok_def A_eq
      using inv_mem_ok[OF inv] rs pb rs0 pb0 sn by (simp add: mem_ok_def)
    show "waiters_ok n (Suc R) ?s'"
      using ok' okq' by (simp add: waiters_ok_def)
    show "last_sees_all n (Suc R) ?s'"
      unfolding last_sees_all_def A_eq by simp
    show "one_last n (Suc R) ?s'"
      unfolding one_last_def A_eq by simp
  qed
  then show ?thesis by (simp only: step)
qed

lemma barrier_inv_step:
  assumes "barrier_inv n R s" "p < unat n"
  shows "\<exists>R'. barrier_inv n R' (sys_step p s)"
proof (cases "pc (procs s p)")
  case Idle
  then show ?thesis using step_Idle[OF assms] by blast
next
  case L216_read_local_sense
  then show ?thesis using step_L216[OF assms] by blast
next
  case L219_add_fetch_count
  then show ?thesis using step_L219[OF assms] by blast
next
  case L221_test_arrived
  then show ?thesis using step_L221[OF assms] by blast
next
  case L225_reset_count
  then show ?thesis using step_L225[OF assms] by blast
next
  case L228_fence
  then show ?thesis using step_L228[OF assms] by blast
next
  case L231_incr_cycle
  then show ?thesis using step_L231[OF assms] by blast
next
  case L235_store_sense
  then show ?thesis using step_L235[OF assms] by blast
next
  case L238_spin
  then show ?thesis using step_L238[OF assms] by blast
next
  case L249_fence
  then show ?thesis using step_L249[OF assms] by blast
next
  case L252_flip_sense
  then show ?thesis using step_L252[OF assms] by blast
next
  case L255_load_cycle
  then show ?thesis using step_L255[OF assms] by blast
qed

section \<open>Every reachable state satisfies the invariant\<close>

lemma session_start_inv:
  assumes "session_start m0 n s"
  shows "barrier_inv n 0 s"
proof (rule barrier_invI)
  have A: "arrived_set n 0 s = {}"
    using assms by (auto simp: arrived_set_def session_start_def arrived_pcs_def)
  have rs: "\<not> resetting n s" and pb: "\<not> publishing n s"
    using assms by (auto simp: resetting_def publishing_def session_start_def reset_pcs_def)
  show "mem_ok n 0 s"
    using assms rs pb by (simp add: mem_ok_def A session_start_def barrier_init_shared_eq sns_def)
  show "waiters_ok n 0 s"
    using assms by (simp add: waiters_ok_def waiter_ok_def session_start_def sns_def)
  show "last_sees_all n 0 s" by (simp add: last_sees_all_def A)
  show "one_last n 0 s" by (simp add: one_last_def A)
qed

lemma sys_event_release:
  "is_release (p, sys_event p s) \<longleftrightarrow> pc (procs s p) = L235_store_sense"
  by (cases "pc (procs s p)") (simp_all add: sys_event_def barrier_wait_step_def)

lemma barrier_inv_step_count:
  assumes "barrier_inv n R s" "p < unat n"
  shows "barrier_inv n (R + (if is_release (p, sys_event p s) then 1 else 0)) (sys_step p s)"
proof (cases "pc (procs s p)")
  case Idle
  then show ?thesis using step_Idle[OF assms] by (simp add: sys_event_release)
next
  case L216_read_local_sense
  then show ?thesis using step_L216[OF assms] by (simp add: sys_event_release)
next
  case L219_add_fetch_count
  then show ?thesis using step_L219[OF assms] by (simp add: sys_event_release)
next
  case L221_test_arrived
  then show ?thesis using step_L221[OF assms] by (simp add: sys_event_release)
next
  case L225_reset_count
  then show ?thesis using step_L225[OF assms] by (simp add: sys_event_release)
next
  case L228_fence
  then show ?thesis using step_L228[OF assms] by (simp add: sys_event_release)
next
  case L231_incr_cycle
  then show ?thesis using step_L231[OF assms] by (simp add: sys_event_release)
next
  case L235_store_sense
  then show ?thesis using step_L235[OF assms] by (simp add: sys_event_release)
next
  case L238_spin
  then show ?thesis using step_L238[OF assms] by (simp add: sys_event_release)
next
  case L249_fence
  then show ?thesis using step_L249[OF assms] by (simp add: sys_event_release)
next
  case L252_flip_sense
  then show ?thesis using step_L252[OF assms] by (simp add: sys_event_release)
next
  case L255_load_cycle
  then show ?thesis using step_L255[OF assms] by (simp add: sys_event_release)
qed

lemma releases_Nil: "releases s [] = 0"
  by (simp add: releases_def)

lemma releases_Cons:
  "releases s (p # ps) = (if is_release (p, sys_event p s) then 1 else 0) + releases (sys_step p s) ps"
  by (simp add: releases_def)

lemma barrier_inv_run:
  "barrier_inv n R s \<Longrightarrow> \<forall>p \<in> set sched. p < unat n \<Longrightarrow>
   barrier_inv n (R + releases s sched) (run s sched)"
proof (induction sched arbitrary: s R)
  case Nil
  then show ?case by (simp add: releases_Nil)
next
  case (Cons p ps)
  have "barrier_inv n (R + (if is_release (p, sys_event p s) then 1 else 0)) (sys_step p s)"
    using Cons.prems by (intro barrier_inv_step_count) simp_all
  from Cons.IH[OF this] Cons.prems(2) show ?case
    by (simp add: releases_Cons add.assoc)
qed

lemma reachable_inv:
  assumes "session_start m0 n s0" and "\<forall>p \<in> set sched. p < unat n"
  shows "barrier_inv n (releases s0 sched) (run s0 sched)"
  using barrier_inv_run[OF session_start_inv[OF assms(1)] assms(2)] by simp

text \<open>What the invariant says about the values returned.\<close>

lemma inv_returned:
  assumes "barrier_inv n R s" "p < unat n" "k < length (returned (procs s p))"
  shows "returned (procs s p) ! k = of_nat (Suc k)"
  using inv_waiter[OF assms(1,2)] assms(3) by (simp add: waiter_ok_def)

lemma inv_lockstep:
  assumes "barrier_inv n R s" "p < unat n"
  shows "length (returned (procs s p)) = R \<or> Suc (length (returned (procs s p))) = R"
  using inv_waiter[OF assms(1,2)] by (auto simp: waiter_ok_def)

lemma inv_cycle_count:
  assumes "barrier_inv n R s"
  shows "cycle_count (mem s) = of_nat (if publishing n s then Suc R else R)"
  using inv_mem_ok[OF assms] by (simp add: mem_ok_def)

section \<open>The arrival counter and the cycle counter in reachable states\<close>

lemma inv_barrier_count:
  assumes "barrier_inv n R s"
  shows "barrier_count (mem s) = (if resetting n s then 0 else of_nat (card (arrived_set n R s)))"
    and "num_processes (mem s) = n"
  using inv_mem_ok[OF assms] by (simp_all add: mem_ok_def)

lemma card_arrived_set_le: "card (arrived_set n R s) \<le> unat n"
proof -
  have "card (arrived_set n R s) \<le> card {..<unat n}"
    by (intro card_mono arrived_set_subset) simp
  then show ?thesis by simp
qed

lemma inv_barrier_count_le:
  assumes "barrier_inv n R s"
  shows "barrier_count (mem s) \<le> num_processes (mem s)"
proof (cases "resetting n s")
  case True
  then show ?thesis using inv_barrier_count(1)[OF assms] by simp
next
  case False
  have "unat (of_nat (card (arrived_set n R s)) :: u32) = card (arrived_set n R s)"
    using card_arrived_set_le by (rule le_unat_uoi)
  then have "(of_nat (card (arrived_set n R s)) :: u32) \<le> n"
    using card_arrived_set_le[of n R s] by (simp add: word_le_nat_alt)
  then show ?thesis using False inv_barrier_count[OF assms] by simp
qed

lemma step_barrier_count:
  "barrier_count (mem (sys_step p s)) =
     (if pc (procs s p) = L219_add_fetch_count then barrier_count (mem s) + 1
      else if pc (procs s p) = L225_reset_count then 0
      else barrier_count (mem s))"
  by (cases "pc (procs s p)") (simp_all add: sys_step_def barrier_wait_step_def)

lemma inv_publisher_count:
  assumes "barrier_inv n R s" "p < unat n" "pc (procs s p) = L235_store_sense"
  shows "barrier_count (mem s) = 0"
proof -
  have "resetting n s" unfolding resetting_def reset_pcs_def using assms(2,3) by auto
  then show ?thesis using inv_barrier_count(1)[OF assms(1)] by simp
qed


lemma word_le_succ: "(x :: u64) \<noteq> - 1 \<Longrightarrow> x \<le> x + 1"
  by (meson inc_less_eq_triv_imp linorder_not_le order_less_imp_le)

lemma inv_idle_cycle:
  assumes inv: "barrier_inv n R s" and p: "p < unat n" and idle: "pc (procs s p) = Idle"
  shows "length (returned (procs s p)) = R" and "cycle_count (mem s) = of_nat R"
proof -
  show len: "length (returned (procs s p)) = R"
    using inv_waiter[OF inv p] idle by (simp add: waiter_ok_def)
  have "p \<notin> arrived_set n R s" using idle by (simp add: arrived_set_def arrived_pcs_def)
  then have "\<not> publishing n s" by (rule not_arrived_no_releaser(2)[OF inv p])
  then show "cycle_count (mem s) = of_nat R" using inv_cycle_count[OF inv] by simp
qed

section \<open>The cycle counter only counts up\<close>

lemma incrs_Nil: "incrs s [] = 0"
  by (simp add: incrs_def)

lemma incrs_Cons:
  "incrs s (q # sched) = (if is_cycle_incr (q, sys_event q s) then 1 else 0) + incrs (sys_step q s) sched"
  by (simp add: incrs_def)

lemma step_cycle_count:
  "cycle_count (mem (sys_step q s)) =
     cycle_count (mem s) + (if is_cycle_incr (q, sys_event q s) then 1 else 0)"
  by (cases "pc (procs s q)") (simp_all add: sys_step_def sys_event_def barrier_wait_step_def)

lemma step_returned:
  "returned (procs (sys_step q s) p) =
     (if q = p \<and> pc (procs s p) = L255_load_cycle then returned (procs s p) @ [cycle_count (mem s)]
      else returned (procs s p))"
  by (cases "q = p"; cases "pc (procs s q)")
    (simp_all add: sys_step_def barrier_wait_step_def)

lemma returned_grows:
  "length (returned (procs s p)) \<le> length (returned (procs (run s sched) p)) \<and>
   (\<forall>i < length (returned (procs s p)).
      returned (procs (run s sched) p) ! i = returned (procs s p) ! i)"
proof (induction sched arbitrary: s)
  case Nil
  then show ?case by simp
next
  case (Cons q sched)
  have "length (returned (procs s p)) \<le> length (returned (procs (sys_step q s) p)) \<and>
    (\<forall>i < length (returned (procs s p)).
       returned (procs (sys_step q s) p) ! i = returned (procs s p) ! i)"
    by (simp add: step_returned nth_append)
  then show ?case using Cons[of "sys_step q s"] by (auto simp: le_trans)
qed

text \<open>Every value a run adds to the returned values of a process is the cycle counter of
  the start plus at most as many increments as the run makes.\<close>

lemma returned_new:
  "length (returned (procs s p)) \<le> i \<Longrightarrow> i < length (returned (procs (run s sched) p)) \<Longrightarrow>
   \<exists>j \<le> incrs s sched. returned (procs (run s sched) p) ! i = cycle_count (mem s) + of_nat j"
proof (induction sched arbitrary: s)
  case Nil
  then show ?case by simp
next
  case (Cons q sched)
  let ?s1 = "sys_step q s"
  let ?d = "if is_cycle_incr (q, sys_event q s) then 1 else 0 :: nat"
  show ?case
  proof (cases "length (returned (procs ?s1 p)) \<le> i")
    case True
    from Cons.IH[OF True] Cons.prems(2)
    obtain j where j: "j \<le> incrs ?s1 sched"
      and eq: "returned (procs (run ?s1 sched) p) ! i = cycle_count (mem ?s1) + of_nat j"
      by auto
    have "returned (procs (run s (q # sched)) p) ! i = cycle_count (mem s) + of_nat (?d + j)"
      using eq by (simp add: step_cycle_count)
    moreover have "?d + j \<le> incrs s (q # sched)" using j by (simp add: incrs_Cons)
    ultimately show ?thesis by blast
  next
    case False
    then have i: "i < length (returned (procs ?s1 p))" by simp
    then have new: "returned (procs ?s1 p) = returned (procs s p) @ [cycle_count (mem s)]"
      and "i = length (returned (procs s p))"
      using Cons.prems(1) by (auto simp: step_returned split: if_splits)
    then have "returned (procs ?s1 p) ! i = cycle_count (mem s)" by simp
    then have "returned (procs (run s (q # sched)) p) ! i = cycle_count (mem s) + of_nat 0"
      using returned_grows[of ?s1 p sched] i by simp
    then show ?thesis by blast
  qed
qed

lemma word_le_plus_of_nat:
  "unat (x :: u64) + j < 2 ^ 64 \<Longrightarrow> x \<le> x + of_nat j"
proof -
  assume a: "unat x + j < 2 ^ 64"
  then have "j < 2 ^ 64" by simp
  then have "unat (of_nat j :: u64) = j" by (simp add: unat_of_nat take_bit_nat_eq_self)
  then show ?thesis using a by (simp add: no_olen_add_nat)
qed

section \<open>One process alone: proofs\<close>

lemma solo_inv_start: "session_start m0 1 s \<Longrightarrow> solo_inv s"
  by (simp add: session_start_def solo_inv_def barrier_init_shared_eq)

lemma solo_inv_step: "solo_inv s \<Longrightarrow> solo_inv (sys_step 0 s)"
  by (cases "pc (procs s 0)")
    (simp_all add: solo_inv_def sys_step_def barrier_wait_step_def nth_append less_Suc_eq)

lemma solo_event: "solo_inv s \<Longrightarrow> sys_event 0 s \<noteq> Load_sense"
  by (cases "pc (procs s 0)") (simp_all add: solo_inv_def sys_event_def barrier_wait_step_def)

lemma events_of_Nil: "events_of p s [] = []"
  by (simp add: events_of_def)

lemma events_of_Cons:
  "events_of p s (q # sched) =
     (if q = p then sys_event p s # events_of p (sys_step p s) sched
      else events_of p (sys_step q s) sched)"
  by (simp add: events_of_def)

lemma solo_inv_run:
  "solo_inv s \<Longrightarrow> set sched \<subseteq> {0} \<Longrightarrow>
   solo_inv (run s sched) \<and> Load_sense \<notin> set (events_of 0 s sched)"
proof (induction sched arbitrary: s)
  case Nil
  then show ?case by (simp add: events_of_Nil)
next
  case (Cons q sched)
  then have q: "q = 0" by simp
  have "solo_inv (sys_step 0 s)" using Cons.prems(1) by (rule solo_inv_step)
  from Cons.IH[OF this] Cons.prems solo_event[OF Cons.prems(1)] show ?case
    by (auto simp add: q events_of_Cons)
qed

text \<open>Alone, a call that starts runs through the releaser branch and returns after eleven steps.\<close>

lemma solo_wait_returns:
  assumes "solo_inv s" "pc (procs s 0) = Idle"
  shows "pc (procs (run s solo_sched) 0) = Idle"
    and "returned (procs (run s solo_sched) 0) =
           returned (procs s 0) @ [cycle_count (mem s) + 1]"
    and "events_of 0 s solo_sched =
           [Load_num_processes, Local_step, Add_fetch_barrier_count 1, Local_step,
            Store_barrier_count 0, Thread_fence, Add_fetch_cycle_count 1,
            Store_sense (local_sense (handle (procs s 0))), Thread_fence, Local_step,
            Load_cycle_count]"
  using assms
  by (simp_all add: solo_inv_def solo_sched_def sys_step_def barrier_wait_step_def
      events_of_def sys_event_def)

lemma concat_replicate_Suc:
  "concat (replicate (Suc k) xs) = concat (replicate k xs) @ xs"
  by (induction k) simp_all

lemma solo_waits:
  assumes "solo_inv s" "pc (procs s 0) = Idle"
  shows "solo_inv (run s (concat (replicate k solo_sched))) \<and>
         pc (procs (run s (concat (replicate k solo_sched))) 0) = Idle \<and>
         length (returned (procs (run s (concat (replicate k solo_sched))) 0)) =
           length (returned (procs s 0)) + k"
proof (induction k)
  case 0
  then show ?case using assms by simp
next
  case (Suc k)
  let ?s = "run s (concat (replicate k solo_sched))"
  have r: "run s (concat (replicate (Suc k) solo_sched)) = run ?s solo_sched"
    by (simp only: concat_replicate_Suc run_append)
  have "set solo_sched \<subseteq> {0}" by (simp add: solo_sched_def)
  then have "solo_inv (run ?s solo_sched)" using Suc solo_inv_run by blast
  then show ?case
    unfolding r using Suc solo_wait_returns(1,2)[of ?s] by simp
qed


lemma wrap_state_facts:
  "solo_inv wrap_state" "pc (procs wrap_state 0) = Idle"
  "length (returned (procs wrap_state 0)) = 2 ^ 64 - 1"
  using solo_waits[OF solo_inv_start[OF session_start_start_sys[of 1]], of "2 ^ 64 - 1"]
  by (simp_all add: wrap_state_def start_sys_def fresh_waiter_def)

lemma wrap_state_cycle: "cycle_count (mem wrap_state) = - 1"
  using wrap_state_facts by (simp add: solo_inv_def)

section \<open>Calls that do not overlap: proofs\<close>









section \<open>The events of the releaser\<close>

lemma sys_step_effect: "mem (sys_step q t) = apply_event (sys_event q t) (mem t)"
  by (cases "pc (procs t q)") (simp_all add: sys_step_def sys_event_def barrier_wait_step_def)

text \<open>A statement whose event and successor do not depend on the shared state: the events
  of the process continue with that event, whatever the others do in between.\<close>

lemma events_of_chain:
  assumes nxt: "\<And>s sched. procs s p = b' \<Longrightarrow>
                  take k (events_of p s sched) = take (count_list sched p) es"
    and step: "\<And>m. fst (barrier_wait_step m b) = e \<and> snd (snd (barrier_wait_step m b)) = b'"
  shows "procs s p = b \<Longrightarrow>
         take (Suc k) (events_of p s sched) = take (count_list sched p) (e # es)"
proof (induction sched arbitrary: s)
  case Nil
  then show ?case by (simp add: events_of_Nil)
next
  case (Cons q sched)
  show ?case
  proof (cases "q = p")
    case True
    have "procs (sys_step p s) p = b'"
      using step[of "mem s"] Cons.prems by (simp add: sys_step_procs_self)
    from nxt[OF this, of sched] show ?thesis
      using True step[of "mem s"] Cons.prems by (simp add: events_of_Cons sys_event_def)
  next
    case False
    then have "procs (sys_step q s) p = b" using Cons.prems by (simp add: sys_step_procs_other)
    from Cons.IH[OF this] show ?thesis using False by (simp add: events_of_Cons)
  qed
qed

lemma releaser_events:
  assumes "procs s p = b" "pc b = L221_test_arrived" "arrived b = num_procs b"
  shows "take 5 (events_of p s sched) =
           take (count_list sched p)
             [Local_step, Store_barrier_count 0, Thread_fence, Add_fetch_cycle_count 1,
              Store_sense (my_sense b)]"
proof -
  have e0: "take 0 (events_of p s sched) = take (count_list sched p) []" for s sched
    by simp
  have e1: "take (Suc 0) (events_of p s sched) = take (count_list sched p) [Store_sense (my_sense b)]"
    if "procs s p = b\<lparr>pc := L235_store_sense\<rparr>" for s sched
    using that by (rule events_of_chain[where b' = "b\<lparr>pc := L249_fence\<rparr>", rotated 2])
      (simp_all add: barrier_wait_step_def)
  have e2: "take (Suc (Suc 0)) (events_of p s sched) =
      take (count_list sched p) [Add_fetch_cycle_count 1, Store_sense (my_sense b)]"
    if "procs s p = b\<lparr>pc := L231_incr_cycle\<rparr>" for s sched
    using that by (rule events_of_chain[where b' = "b\<lparr>pc := L235_store_sense\<rparr>", rotated 2])
      (simp_all add: barrier_wait_step_def e1)
  have e3: "take (Suc (Suc (Suc 0))) (events_of p s sched) =
      take (count_list sched p) [Thread_fence, Add_fetch_cycle_count 1, Store_sense (my_sense b)]"
    if "procs s p = b\<lparr>pc := L228_fence\<rparr>" for s sched
    using that by (rule events_of_chain[where b' = "b\<lparr>pc := L231_incr_cycle\<rparr>", rotated 2])
      (simp_all add: barrier_wait_step_def e2)
  have e4: "take (Suc (Suc (Suc (Suc 0)))) (events_of p s sched) =
      take (count_list sched p)
        [Store_barrier_count 0, Thread_fence, Add_fetch_cycle_count 1, Store_sense (my_sense b)]"
    if "procs s p = b\<lparr>pc := L225_reset_count\<rparr>" for s sched
    using that by (rule events_of_chain[where b' = "b\<lparr>pc := L228_fence\<rparr>", rotated 2])
      (simp_all add: barrier_wait_step_def e3)
  have e5: "take (Suc (Suc (Suc (Suc (Suc 0))))) (events_of p s sched) =
      take (count_list sched p)
        [Local_step, Store_barrier_count 0, Thread_fence, Add_fetch_cycle_count 1,
         Store_sense (my_sense b)]"
    using assms(1) by (rule events_of_chain[where b' = "b\<lparr>pc := L225_reset_count\<rparr>", rotated 2])
      (use assms(2,3) in \<open>simp_all add: barrier_wait_step_def e4\<close>)
  then show ?thesis by (simp add: eval_nat_numeral)
qed

lemma sense_track_my_sense:
  "sense_track ls n0 b \<Longrightarrow> pc b \<notin> {Idle, L216_read_local_sense, L255_load_cycle} \<Longrightarrow>
   my_sense b = local_sense (handle b)"
  by (simp add: sense_track_def)

section \<open>The polling loops of barrier\_open\<close>

lemma open_loop_facts:
  "open_loop env nm ldr fdv r = (failed, fdv', tr) \<Longrightarrow>
     length (filter is_open_call tr) \<le> max_retries - r \<and>
     length (filter is_usleep tr) \<le> max_retries - r \<and>
     filter is_fstat_call tr = [] \<and> filter is_init_load tr = [] \<and>
     (\<forall>d. Usleep d \<in> set tr \<longrightarrow> d = 10000)"
proof (induction env nm ldr fdv r arbitrary: failed fdv' tr rule: open_loop.induct)
  case (1 env nm ldr fdv retries)
  show ?case
  proof (cases "retries < max_retries")
    case False
    then show ?thesis using "1.prems"[unfolded open_loop.simps[of env nm ldr fdv retries]] by simp
  next
    case True
    obtain a e where ans: "open_answer env retries = (a, e)" by (cases "open_answer env retries")
    show ?thesis
    proof (cases "\<not> a \<ge> 0 \<and> \<not> ldr \<and> e = ENOENT")
      case False
      then show ?thesis
        using "1.prems"[unfolded open_loop.simps[of env nm ldr fdv retries]] True ans
        by (auto split: if_splits)
    next
      case rec: True
      obtain f d t where r: "open_loop env nm ldr a (Suc retries) = (f, d, t)"
        by (cases "open_loop env nm ldr a (Suc retries)")
      have IH: "length (filter is_open_call t) \<le> max_retries - Suc retries \<and>
        length (filter is_usleep t) \<le> max_retries - Suc retries \<and>
        filter is_fstat_call t = [] \<and> filter is_init_load t = [] \<and>
        (\<forall>d. Usleep d \<in> set t \<longrightarrow> d = 10000)"
        using "1.IH"[OF True ans[symmetric] _ _ r] rec by simp
      have "tr = Open_path nm ldr # Usleep 10000 # t"
        using "1.prems"[unfolded open_loop.simps[of env nm ldr fdv retries]] True ans rec r by simp
      then show ?thesis using IH True by auto
    qed
  qed
qed


lemma size_loop_facts:
  "size_loop env fdv r = (r', tr) \<Longrightarrow>
     length (filter is_fstat_call tr) \<le> max_retries - r \<and>
     length (filter is_usleep tr) \<le> max_retries - r \<and>
     filter is_open_call tr = [] \<and> filter is_init_load tr = [] \<and>
     (\<forall>d. Usleep d \<in> set tr \<longrightarrow> d = 10000)"
proof (induction env fdv r arbitrary: r' tr rule: size_loop.induct)
  case (1 env fdv retries)
  show ?case
  proof (cases "retries < max_retries")
    case False
    then show ?thesis using "1.prems"[unfolded size_loop.simps[of env fdv retries]] by simp
  next
    case True
    obtain a sz where ans: "fstat_answer env retries = (a, sz)" by (cases "fstat_answer env retries")
    show ?thesis
    proof (cases "a = 0 \<and> sz \<ge> barrier_mapsize")
      case True
      then show ?thesis
        using "1.prems"[unfolded size_loop.simps[of env fdv retries]] \<open>retries < max_retries\<close> ans
        by auto
    next
      case rec: False
      obtain d t where r: "size_loop env fdv (Suc retries) = (d, t)"
        by (cases "size_loop env fdv (Suc retries)")
      have IH: "length (filter is_fstat_call t) \<le> max_retries - Suc retries \<and>
        length (filter is_usleep t) \<le> max_retries - Suc retries \<and>
        filter is_open_call t = [] \<and> filter is_init_load t = [] \<and>
        (\<forall>d. Usleep d \<in> set t \<longrightarrow> d = 10000)"
        using "1.IH"[OF True ans[symmetric] _ r] rec by simp
      have "tr = Fstat fdv # Usleep 10000 # t"
        using "1.prems"[unfolded size_loop.simps[of env fdv retries]] True ans rec r by auto
      then show ?thesis using IH True by auto
    qed
  qed
qed

lemma init_loop_facts:
  "init_loop env r = (r', tr) \<Longrightarrow>
     length (filter is_init_load tr) \<le> max_retries - r \<and>
     length (filter is_usleep tr) \<le> max_retries - r \<and>
     filter is_open_call tr = [] \<and> filter is_fstat_call tr = [] \<and>
     (\<forall>d. Usleep d \<in> set tr \<longrightarrow> d = 1000)"
proof (induction env r arbitrary: r' tr rule: init_loop.induct)
  case (1 env retries)
  show ?case
  proof (cases "retries < max_retries")
    case False
    then show ?thesis using "1.prems"[unfolded init_loop.simps[of env retries]] by simp
  next
    case True
    show ?thesis
    proof (cases "initialized_read env retries = 1")
      case True
      then show ?thesis
        using "1.prems"[unfolded init_loop.simps[of env retries]] \<open>retries < max_retries\<close>
        by auto
    next
      case rec: False
      obtain d t where r: "init_loop env (Suc retries) = (d, t)"
        by (cases "init_loop env (Suc retries)")
      have IH: "length (filter is_init_load t) \<le> max_retries - Suc retries \<and>
        length (filter is_usleep t) \<le> max_retries - Suc retries \<and>
        filter is_open_call t = [] \<and> filter is_fstat_call t = [] \<and>
        (\<forall>d. Usleep d \<in> set t \<longrightarrow> d = 1000)"
        using "1.IH"[OF True rec r] by simp
      have "tr = Atomic Load_initialized # Usleep 1000 # t"
        using "1.prems"[unfolded init_loop.simps[of env retries]] True rec r by simp
      then show ?thesis using IH True by auto
    qed
  qed
qed

text \<open>Exhausting a budget.\<close>

lemma open_loop_exhausted:
  "\<forall>i. r \<le> i \<and> i < max_retries \<longrightarrow> fst (open_answer env i) < 0 \<and> snd (open_answer env i) = ENOENT \<Longrightarrow>
   fdv < 0 \<Longrightarrow> open_loop env nm False fdv r = (failed, fdv', tr) \<Longrightarrow> \<not> failed \<and> fdv' < 0"
proof (induction env nm "False" fdv r arbitrary: failed fdv' tr rule: open_loop.induct)
  case (1 env nm fdv retries)
  show ?case
  proof (cases "retries < max_retries")
    case False
    then show ?thesis using "1.prems"(1,2) "1.prems"(3)[unfolded open_loop.simps[of env nm False fdv retries]] by simp
  next
    case True
    obtain a e where ans: "open_answer env retries = (a, e)" by (cases "open_answer env retries")
    have a: "a < 0" "e = ENOENT" using "1.prems"(1) True ans by auto
    obtain f d t where r: "open_loop env nm False a (Suc retries) = (f, d, t)"
      by (cases "open_loop env nm False a (Suc retries)")
    have "\<not> f \<and> d < 0"
      using "1.hyps"[OF True ans[symmetric] _ _ _ _ r] a "1.prems"(1) by simp
    then show ?thesis
      using "1.prems"(3)[unfolded open_loop.simps[of env nm False fdv retries]] True ans a r by simp
  qed
qed

lemma size_loop_exhausted:
  "\<forall>i. r \<le> i \<and> i < max_retries \<longrightarrow>
       \<not> (fst (fstat_answer env i) = 0 \<and> barrier_mapsize \<le> snd (fstat_answer env i)) \<Longrightarrow>
   r \<le> max_retries \<Longrightarrow> size_loop env fdv r = (r', tr) \<Longrightarrow> r' = max_retries"
proof (induction env fdv r arbitrary: r' tr rule: size_loop.induct)
  case (1 env fdv retries)
  show ?case
  proof (cases "retries < max_retries")
    case False
    then show ?thesis using "1.prems"(1,2) "1.prems"(3)[unfolded size_loop.simps[of env fdv retries]] by simp
  next
    case True
    obtain a sz where ans: "fstat_answer env retries = (a, sz)" by (cases "fstat_answer env retries")
    have no: "\<not> (a = 0 \<and> barrier_mapsize \<le> sz)" using "1.prems"(1) True ans by auto
    obtain d t where r: "size_loop env fdv (Suc retries) = (d, t)"
      by (cases "size_loop env fdv (Suc retries)")
    have later: "\<forall>i. Suc retries \<le> i \<and> i < max_retries \<longrightarrow>
       \<not> (fst (fstat_answer env i) = 0 \<and> barrier_mapsize \<le> snd (fstat_answer env i))"
      using "1.prems"(1) by auto
    have "d = max_retries"
      using "1.IH"[OF True ans[symmetric] no later _ r] True by simp
    moreover have "r' = d"
      using "1.prems"(3)[unfolded size_loop.simps[of env fdv retries]] True ans no r by auto
    ultimately show ?thesis by simp
  qed
qed

lemma init_loop_exhausted:
  "\<forall>i. r \<le> i \<and> i < max_retries \<longrightarrow> initialized_read env i \<noteq> 1 \<Longrightarrow>
   r \<le> max_retries \<Longrightarrow> init_loop env r = (r', tr) \<Longrightarrow> r' = max_retries"
proof (induction env r arbitrary: r' tr rule: init_loop.induct)
  case (1 env retries)
  show ?case
  proof (cases "retries < max_retries")
    case False
    then show ?thesis using "1.prems"(1,2) "1.prems"(3)[unfolded init_loop.simps[of env retries]] by simp
  next
    case True
    have no: "initialized_read env retries \<noteq> 1" using "1.prems"(1) True by auto
    obtain d t where r: "init_loop env (Suc retries) = (d, t)"
      by (cases "init_loop env (Suc retries)")
    have later: "\<forall>i. Suc retries \<le> i \<and> i < max_retries \<longrightarrow> initialized_read env i \<noteq> 1"
      using "1.prems"(1) by auto
    have "d = max_retries"
      using "1.IH"[OF True no later _ r] True by simp
    moreover have "r' = d"
      using "1.prems"(3)[unfolded init_loop.simps[of env retries]] True no r by simp
    ultimately show ?thesis by simp
  qed
qed



text \<open>\<^verbatim>\<open>barrier_open\<close> of a follower, with the results of its three loops named.\<close>

lemma follower_open_unfold:
  assumes "open_loop env nm False (- 1) 0 = (failed, fdv, t1)"
    and "size_loop env fdv 0 = (r2, t2)"
    and "init_loop env 0 = (r4, t4)"
  shows "barrier_open env m nm False n =
     (if \<not> memalign_ok env then open_err (- 1) no_resources [Posix_memalign] m
      else if failed \<or> fdv < 0 then
        open_err fdv
          (if fdv \<ge> 0 then no_resources\<lparr>handle_alloc := True, open_fd := Some fdv\<rparr>
           else no_resources\<lparr>handle_alloc := True\<rparr>)
          (Posix_memalign # t1) m
      else if r2 \<ge> max_retries then
        open_err fdv (no_resources\<lparr>handle_alloc := True, open_fd := Some fdv\<rparr>)
          (Posix_memalign # t1 @ t2) m
      else if mmap_answer env = None then
        open_err fdv (no_resources\<lparr>handle_alloc := True, open_fd := Some fdv\<rparr>)
          (Posix_memalign # t1 @ t2 @ [Mmap fdv, Perror]) m
      else if r4 \<ge> max_retries then
        open_err fdv
          (no_resources\<lparr>handle_alloc := True, open_fd := Some fdv, mapping := True,
             name_copy := strdup_ok env\<rparr>)
          (Posix_memalign # t1 @ t2 @ [Mmap fdv, Strdup nm] @ t4) m
      else
        \<lparr>opened = Some (filled_handle (the (mmap_answer env))
                    (if strdup_ok env then Some nm else None) fdv False),
         held = no_resources\<lparr>handle_alloc := True, open_fd := Some fdv, mapping := True,
                  name_copy := strdup_ok env\<rparr>,
         calls = Posix_memalign # t1 @ t2 @ [Mmap fdv, Strdup nm] @ t4,
         shared_after = m\<rparr>)"
  using assms
  by (cases "mmap_answer env") (simp_all add: barrier_open_def Let_def)

lemma open_err_calls:
  "calls (open_err fdv r tr m) = tr @ (if fdv \<ge> 0 then [Close_fd fdv] else []) @ [Free_handle]"
  "opened (open_err fdv r tr m) = None"
  by (simp_all add: open_err_def)

lemma follower_open_calls:
  "length (filter is_open_call (calls (barrier_open env m nm False n))) \<le> max_retries \<and>
   length (filter is_fstat_call (calls (barrier_open env m nm False n))) \<le> max_retries \<and>
   length (filter is_init_load (calls (barrier_open env m nm False n))) \<le> max_retries \<and>
   length (filter is_usleep (calls (barrier_open env m nm False n))) \<le> 3 * max_retries \<and>
   (\<forall>d. Usleep d \<in> set (calls (barrier_open env m nm False n)) \<longrightarrow> d = 10000 \<or> d = 1000)"
proof -
  obtain failed fdv t1 where o: "open_loop env nm False (- 1) 0 = (failed, fdv, t1)"
    by (cases "open_loop env nm False (- 1) 0")
  obtain r2 t2 where s: "size_loop env fdv 0 = (r2, t2)"
    by (cases "size_loop env fdv 0")
  obtain r4 t4 where i: "init_loop env 0 = (r4, t4)"
    by (cases "init_loop env 0")
  note f1 = open_loop_facts[OF o] and f2 = size_loop_facts[OF s] and f3 = init_loop_facts[OF i]
  show ?thesis
    unfolding follower_open_unfold[OF o s i]
    using f1 f2 f3 by (auto simp: open_err_calls)
qed

lemma follower_open_exhausted:
  "(\<forall>i < max_retries. fst (open_answer env i) < 0 \<and> snd (open_answer env i) = ENOENT) \<longrightarrow>
     opened (barrier_open env m nm False n) = None"
  "(\<forall>i < max_retries.
      \<not> (fst (fstat_answer env i) = 0 \<and> barrier_mapsize \<le> snd (fstat_answer env i))) \<longrightarrow>
     opened (barrier_open env m nm False n) = None"
  "(\<forall>i < max_retries. initialized_read env i \<noteq> 1) \<longrightarrow>
     opened (barrier_open env m nm False n) = None"
proof -
  obtain failed fdv t1 where o: "open_loop env nm False (- 1) 0 = (failed, fdv, t1)"
    by (cases "open_loop env nm False (- 1) 0")
  obtain r2 t2 where s: "size_loop env fdv 0 = (r2, t2)"
    by (cases "size_loop env fdv 0")
  obtain r4 t4 where i: "init_loop env 0 = (r4, t4)"
    by (cases "init_loop env 0")
  show "(\<forall>i < max_retries. fst (open_answer env i) < 0 \<and> snd (open_answer env i) = ENOENT) \<longrightarrow>
     opened (barrier_open env m nm False n) = None"
  proof
    assume "\<forall>i < max_retries. fst (open_answer env i) < 0 \<and> snd (open_answer env i) = ENOENT"
    then have "fdv < 0" using open_loop_exhausted[OF _ _ o] by simp
    then show "opened (barrier_open env m nm False n) = None"
      unfolding follower_open_unfold[OF o s i] by (simp add: open_err_calls)
  qed
  show "(\<forall>i < max_retries.
      \<not> (fst (fstat_answer env i) = 0 \<and> barrier_mapsize \<le> snd (fstat_answer env i))) \<longrightarrow>
     opened (barrier_open env m nm False n) = None"
  proof
    assume "\<forall>i < max_retries.
      \<not> (fst (fstat_answer env i) = 0 \<and> barrier_mapsize \<le> snd (fstat_answer env i))"
    then have "r2 = max_retries" using size_loop_exhausted[OF _ _ s] by simp
    then show "opened (barrier_open env m nm False n) = None"
      unfolding follower_open_unfold[OF o s i] by (simp add: open_err_calls)
  qed
  show "(\<forall>i < max_retries. initialized_read env i \<noteq> 1) \<longrightarrow>
     opened (barrier_open env m nm False n) = None"
  proof
    assume "\<forall>i < max_retries. initialized_read env i \<noteq> 1"
    then have "r4 = max_retries" using init_loop_exhausted[OF _ _ i] by simp
    then show "opened (barrier_open env m nm False n) = None"
      unfolding follower_open_unfold[OF o s i] by (simp add: open_err_calls)
  qed
qed

lemma stalled_open_loop: "open_loop stalled_env nm False (- 1) 0 = (False, 3, [Open_path nm False])"
  by (subst open_loop.simps) (simp add: stalled_env_def max_retries_def)

lemma stalled_size_loop: "size_loop stalled_env 3 0 = (0, [Fstat 3])"
  by (subst size_loop.simps) (simp add: stalled_env_def max_retries_def barrier_mapsize_def)


lemma leader_open_loop:
  "0 \<le> fst (open_answer env 0) \<Longrightarrow>
   open_loop env nm True (- 1) 0 = (False, fst (open_answer env 0), [Open_path nm True])"
  by (subst open_loop.simps) (auto simp add: max_retries_def split: prod.splits)

lemma leader_open_success:
  assumes "memalign_ok env" "0 \<le> fst (open_answer env 0)" "0 \<le> ftruncate_answer env"
    "mmap_answer env = Some p"
  shows "barrier_open env m nm True n =
     \<lparr>opened = Some (filled_handle p (if strdup_ok env then Some nm else None)
                 (fst (open_answer env 0)) True),
      held = \<lparr>handle_alloc = True, open_fd = Some (fst (open_answer env 0)), mapping = True,
               name_copy = strdup_ok env\<rparr>,
      calls = [Posix_memalign, Open_path nm True, Ftruncate (fst (open_answer env 0)),
               Mmap (fst (open_answer env 0)), Strdup nm] @ map Atomic (barrier_init_events n),
      shared_after = barrier_init_shared m n\<rparr>"
  using assms
  by (simp add: barrier_open_def leader_open_loop Let_def no_resources_def)

subsection \<open>The exact calls of the polling loops\<close>

text \<open>A loop whose first \<open>k\<close> checks fail sleeps after each of them and checks again; it
  ends at the first check that succeeds, or after \<^verbatim>\<open>max_retries\<close> failed checks.\<close>

lemma polls_0: "polls c sl 0 = []"
  by (simp add: polls_def)

lemma polls_Suc: "polls c sl (Suc k) = c # sl # polls c sl k"
  by (simp add: polls_def)

lemma open_loop_retries_ok:
  "\<forall>i < k. fst (open_answer env (r + i)) < 0 \<and> snd (open_answer env (r + i)) = ENOENT \<Longrightarrow>
   r + k < max_retries \<Longrightarrow> 0 \<le> fst (open_answer env (r + k)) \<Longrightarrow>
   open_loop env nm False fdv r =
     (False, fst (open_answer env (r + k)),
      polls (Open_path nm False) (Usleep 10000) k @ [Open_path nm False])"
proof (induction k arbitrary: r fdv)
  case 0
  then show ?case
    by (subst open_loop.simps) (simp add: polls_0 case_prod_beta)
next
  case (Suc k)
  have f: "fst (open_answer env r) < 0" "snd (open_answer env r) = ENOENT"
    using Suc.prems(1)[rule_format, of 0] by simp_all
  have "open_loop env nm False (fst (open_answer env r)) (Suc r) =
     (False, fst (open_answer env (Suc r + k)),
      polls (Open_path nm False) (Usleep 10000) k @ [Open_path nm False])"
    using Suc.prems by (intro Suc.IH) (auto simp: less_Suc_eq_0_disj)
  then show ?case
    using f Suc.prems(2)
    by (subst open_loop.simps) (simp add: polls_Suc case_prod_beta)
qed

lemma open_loop_retries_out:
  "\<forall>i < k. fst (open_answer env (r + i)) < 0 \<and> snd (open_answer env (r + i)) = ENOENT \<Longrightarrow>
   r + k = max_retries \<Longrightarrow> fdv < 0 \<Longrightarrow>
   \<exists>fdv' < 0. open_loop env nm False fdv r =
     (False, fdv', polls (Open_path nm False) (Usleep 10000) k)"
proof (induction k arbitrary: r fdv)
  case 0
  then show ?case
    by (subst open_loop.simps) (simp add: polls_0)
next
  case (Suc k)
  have f: "fst (open_answer env r) < 0" "snd (open_answer env r) = ENOENT"
    using Suc.prems(1)[rule_format, of 0] by simp_all
  have "\<exists>fdv' < 0. open_loop env nm False (fst (open_answer env r)) (Suc r) =
     (False, fdv', polls (Open_path nm False) (Usleep 10000) k)"
    using Suc.prems f by (intro Suc.IH) (auto simp: less_Suc_eq_0_disj)
  then obtain fdv' where "fdv' < 0"
    and "open_loop env nm False (fst (open_answer env r)) (Suc r) =
           (False, fdv', polls (Open_path nm False) (Usleep 10000) k)"
    by blast
  then show ?case
    using f Suc.prems(2)
    by (subst open_loop.simps) (simp add: polls_Suc case_prod_beta)
qed

lemma size_loop_retries_ok:
  "\<forall>i < k. \<not> (fst (fstat_answer env (r + i)) = 0 \<and>
               barrier_mapsize \<le> snd (fstat_answer env (r + i))) \<Longrightarrow>
   r + k < max_retries \<Longrightarrow>
   fst (fstat_answer env (r + k)) = 0 \<and> barrier_mapsize \<le> snd (fstat_answer env (r + k)) \<Longrightarrow>
   size_loop env fdv r = (r + k, polls (Fstat fdv) (Usleep 10000) k @ [Fstat fdv])"
proof (induction k arbitrary: r)
  case 0
  then show ?case
    by (subst size_loop.simps) (simp add: polls_0 case_prod_beta)
next
  case (Suc k)
  have f: "\<not> (fst (fstat_answer env r) = 0 \<and> barrier_mapsize \<le> snd (fstat_answer env r))"
    using Suc.prems(1)[rule_format, of 0] by simp
  have "size_loop env fdv (Suc r) =
          (Suc r + k, polls (Fstat fdv) (Usleep 10000) k @ [Fstat fdv])"
    using Suc.prems by (intro Suc.IH) (auto simp: less_Suc_eq_0_disj)
  then show ?case
    using f Suc.prems(2)
    by (subst size_loop.simps) (simp add: polls_Suc case_prod_beta)
qed

lemma size_loop_retries_out:
  "\<forall>i < k. \<not> (fst (fstat_answer env (r + i)) = 0 \<and>
               barrier_mapsize \<le> snd (fstat_answer env (r + i))) \<Longrightarrow>
   r + k = max_retries \<Longrightarrow>
   size_loop env fdv r = (max_retries, polls (Fstat fdv) (Usleep 10000) k)"
proof (induction k arbitrary: r)
  case 0
  then show ?case
    by (subst size_loop.simps) (simp add: polls_0)
next
  case (Suc k)
  have f: "\<not> (fst (fstat_answer env r) = 0 \<and> barrier_mapsize \<le> snd (fstat_answer env r))"
    using Suc.prems(1)[rule_format, of 0] by simp
  have "size_loop env fdv (Suc r) = (max_retries, polls (Fstat fdv) (Usleep 10000) k)"
    using Suc.prems by (intro Suc.IH) (auto simp: less_Suc_eq_0_disj)
  then show ?case
    using f Suc.prems(2)
    by (subst size_loop.simps) (simp add: polls_Suc case_prod_beta)
qed

lemma init_loop_retries_ok:
  "\<forall>i < k. initialized_read env (r + i) \<noteq> 1 \<Longrightarrow> r + k < max_retries \<Longrightarrow>
   initialized_read env (r + k) = 1 \<Longrightarrow>
   init_loop env r =
     (r + k, polls (Atomic Load_initialized) (Usleep 1000) k @ [Atomic Load_initialized])"
proof (induction k arbitrary: r)
  case 0
  then show ?case
    by (subst init_loop.simps) (simp add: polls_0)
next
  case (Suc k)
  have f: "initialized_read env r \<noteq> 1"
    using Suc.prems(1)[rule_format, of 0] by simp
  have "init_loop env (Suc r) =
     (Suc r + k, polls (Atomic Load_initialized) (Usleep 1000) k @ [Atomic Load_initialized])"
    using Suc.prems by (intro Suc.IH) (auto simp: less_Suc_eq_0_disj)
  then show ?case
    using f Suc.prems(2)
    by (subst init_loop.simps) (auto simp: polls_Suc)
qed

lemma init_loop_retries_out:
  "\<forall>i < k. initialized_read env (r + i) \<noteq> 1 \<Longrightarrow> r + k = max_retries \<Longrightarrow>
   init_loop env r = (max_retries, polls (Atomic Load_initialized) (Usleep 1000) k)"
proof (induction k arbitrary: r)
  case 0
  then show ?case
    by (subst init_loop.simps) (simp add: polls_0)
next
  case (Suc k)
  have f: "initialized_read env r \<noteq> 1"
    using Suc.prems(1)[rule_format, of 0] by simp
  have "init_loop env (Suc r) = (max_retries, polls (Atomic Load_initialized) (Usleep 1000) k)"
    using Suc.prems by (intro Suc.IH) (auto simp: less_Suc_eq_0_disj)
  then show ?case
    using f Suc.prems(2)
    by (subst init_loop.simps) (auto simp: polls_Suc)
qed


text \<open>The calls of a follower's \<^verbatim>\<open>barrier_open\<close>, from the number of failed checks of each
  phase.\<close>

lemma follower_open_trace:
  assumes ma: "memalign_ok env"
    and mm: "k1 < max_retries \<and> k2 < max_retries \<longrightarrow> mmap_answer env \<noteq> None"
    and k: "k1 \<le> max_retries" "k2 \<le> max_retries" "k3 \<le> max_retries"
    and o1: "\<forall>i < k1. fst (open_answer env i) < 0 \<and> snd (open_answer env i) = ENOENT"
    and o2: "k1 < max_retries \<longrightarrow> 0 \<le> fst (open_answer env k1)"
    and s1: "\<forall>i < k2. \<not> (fst (fstat_answer env i) = 0 \<and>
                          barrier_mapsize \<le> snd (fstat_answer env i))"
    and s2: "k2 < max_retries \<longrightarrow>
               fst (fstat_answer env k2) = 0 \<and> barrier_mapsize \<le> snd (fstat_answer env k2)"
    and i1: "\<forall>i < k3. initialized_read env i \<noteq> 1"
    and i2: "k3 < max_retries \<longrightarrow> initialized_read env k3 = 1"
  shows "calls (barrier_open env m nm False n) =
     Posix_memalign # polls (Open_path nm False) (Usleep 10000) k1 @
       (if k1 = max_retries then [Free_handle]
        else Open_path nm False #
          polls (Fstat (fst (open_answer env k1))) (Usleep 10000) k2 @
          (if k2 = max_retries then [Close_fd (fst (open_answer env k1)), Free_handle]
           else Fstat (fst (open_answer env k1)) # Mmap (fst (open_answer env k1)) #
             Strdup nm # polls (Atomic Load_initialized) (Usleep 1000) k3 @
             (if k3 = max_retries then [Close_fd (fst (open_answer env k1)), Free_handle]
              else [Atomic Load_initialized])))"
    and "opened (barrier_open env m nm False n) = None \<longleftrightarrow>
           k1 = max_retries \<or> k2 = max_retries \<or> k3 = max_retries"
proof -
  obtain failed fdv t1 where ol: "open_loop env nm False (- 1) 0 = (failed, fdv, t1)"
    by (cases "open_loop env nm False (- 1) 0") auto
  obtain r2 t2 where sl: "size_loop env fdv 0 = (r2, t2)"
    by (cases "size_loop env fdv 0") auto
  obtain r4 t4 where il: "init_loop env 0 = (r4, t4)"
    by (cases "init_loop env 0") auto
  note u = follower_open_unfold[OF ol sl il, of m n]
  have a: "\<not> failed \<and> t1 = polls (Open_path nm False) (Usleep 10000) k1 @
             (if k1 = max_retries then [] else [Open_path nm False]) \<and>
           (if k1 = max_retries then fdv < 0 else fdv = fst (open_answer env k1) \<and> 0 \<le> fdv)"
  proof (cases "k1 = max_retries")
    case True
    then show ?thesis
      using open_loop_retries_out[of k1 env 0 "- 1" nm] o1 ol by auto
  next
    case False
    then show ?thesis
      using open_loop_retries_ok[of k1 env 0 nm "- 1"] o1 o2 k(1) ol by auto
  qed
  have b: "t2 = polls (Fstat fdv) (Usleep 10000) k2 @
             (if k2 = max_retries then [] else [Fstat fdv]) \<and>
           (max_retries \<le> r2 \<longleftrightarrow> k2 = max_retries)"
  proof (cases "k2 = max_retries")
    case True
    then show ?thesis
      using size_loop_retries_out[of k2 env 0 fdv] s1 sl by auto
  next
    case False
    then show ?thesis
      using size_loop_retries_ok[of k2 env 0 fdv] s1 s2 k(2) sl by auto
  qed
  have c: "t4 = polls (Atomic Load_initialized) (Usleep 1000) k3 @
             (if k3 = max_retries then [] else [Atomic Load_initialized]) \<and>
           (max_retries \<le> r4 \<longleftrightarrow> k3 = max_retries)"
  proof (cases "k3 = max_retries")
    case True
    then show ?thesis
      using init_loop_retries_out[of k3 env 0] i1 il by auto
  next
    case False
    then show ?thesis
      using init_loop_retries_ok[of k3 env 0] i1 i2 k(3) il by auto
  qed
  show "calls (barrier_open env m nm False n) =
     Posix_memalign # polls (Open_path nm False) (Usleep 10000) k1 @
       (if k1 = max_retries then [Free_handle]
        else Open_path nm False #
          polls (Fstat (fst (open_answer env k1))) (Usleep 10000) k2 @
          (if k2 = max_retries then [Close_fd (fst (open_answer env k1)), Free_handle]
           else Fstat (fst (open_answer env k1)) # Mmap (fst (open_answer env k1)) #
             Strdup nm # polls (Atomic Load_initialized) (Usleep 1000) k3 @
             (if k3 = max_retries then [Close_fd (fst (open_answer env k1)), Free_handle]
              else [Atomic Load_initialized])))"
    using a b c ma mm k
    by (cases "k1 = max_retries"; cases "k2 = max_retries"; cases "k3 = max_retries";
        cases "mmap_answer env"; simp add: u open_err_calls)
  show "opened (barrier_open env m nm False n) = None \<longleftrightarrow>
           k1 = max_retries \<or> k2 = max_retries \<or> k3 = max_retries"
    using a b c ma mm k
    by (cases "k1 = max_retries"; cases "k2 = max_retries"; cases "k3 = max_retries";
        cases "mmap_answer env"; simp add: u open_err_calls)
qed

section \<open>What barrier\_open returns\<close>

text \<open>What a follower's \<^verbatim>\<open>barrier_open\<close> returns is a valid handle with an open
  descriptor, and it expects sense 1; its name is \<^verbatim>\<open>NULL\<close> when \<^verbatim>\<open>strdup\<close> failed; a failed \<^verbatim>\<open>barrier_open\<close> has always closed the
  descriptor and freed the handle.\<close>

lemma follower_opened:
  assumes "opened (barrier_open env m nm False n) = Some b"
  shows "local_sense b = 1 \<and> unmap_at_close b \<and> \<not> is_leader b \<and>
         valid_handle b \<and> 0 \<le> fd b \<and> shm b \<noteq> None \<and>
         name b = (if strdup_ok env then Some nm else None)"
proof -
  obtain failed fdv t1 where o: "open_loop env nm False (- 1) 0 = (failed, fdv, t1)"
    by (cases "open_loop env nm False (- 1) 0")
  obtain r2 t2 where s: "size_loop env fdv 0 = (r2, t2)"
    by (cases "size_loop env fdv 0")
  obtain r4 t4 where i: "init_loop env 0 = (r4, t4)"
    by (cases "init_loop env 0")
  show ?thesis
    using assms unfolding follower_open_unfold[OF o s i]
    by (auto simp: open_err_calls filled_handle_def valid_handle_def split: if_splits)
qed

lemma follower_failed_releases:
  assumes "opened (barrier_open env m nm False n) = None"
  shows "\<not> handle_alloc (held (barrier_open env m nm False n)) \<and>
         open_fd (held (barrier_open env m nm False n)) = None"
proof -
  obtain failed fdv t1 where o: "open_loop env nm False (- 1) 0 = (failed, fdv, t1)"
    by (cases "open_loop env nm False (- 1) 0")
  obtain r2 t2 where s: "size_loop env fdv 0 = (r2, t2)"
    by (cases "size_loop env fdv 0")
  obtain r4 t4 where i: "init_loop env 0 = (r4, t4)"
    by (cases "init_loop env 0")
  show ?thesis
    using assms unfolding follower_open_unfold[OF o s i]
    by (auto simp: open_err_def no_resources_def split: if_splits)
qed

lemma good_open:
  "opened (barrier_open good_env m nm False n) = Some (filled_handle 4096 (Some nm) 3 False)"
proof -
  have o: "open_loop good_env nm False (- 1) 0 = (False, 3, [Open_path nm False])"
    by (subst open_loop.simps) (simp add: good_env_def max_retries_def)
  have s: "size_loop good_env 3 0 = (0, [Fstat 3])"
    by (subst size_loop.simps) (simp add: good_env_def max_retries_def barrier_mapsize_def)
  have i: "init_loop good_env 0 = (0, [Atomic Load_initialized])"
    by (subst init_loop.simps) (simp add: good_env_def max_retries_def)
  show ?thesis
    unfolding follower_open_unfold[OF o s i]
    by (simp add: good_env_def max_retries_def)
qed

lemma late_join_state_eq:
  "late_join_state =
     \<lparr>mem = \<lparr>cycle_count = 1, barrier_count = 0, num_processes = 2, sense = 1, initialized = 1\<rparr>,
      procs = (procs (run (start_sys 1) solo_sched))
        (1 := fresh_waiter (filled_handle 4096 (Some ''/tmp/barrier'') 3 False))\<rparr>"
  by (simp add: late_join_state_def Let_def good_open barrier_set_num_processes_def)
    (simp add: run_simps solo_sched_def)

section \<open>The releaser resets the counter before it publishes the release\<close>

text \<open>
  Claim C1. A call of \<^verbatim>\<open>barrier_wait\<close> whose fetch-add returned the count it captured at
  its start (lines 219 and 221) goes on, whatever the other processes do in between, with
  exactly these accesses in this order: the test of line 221, the store of 0 to
  \<^verbatim>\<open>barrier_count\<close>, a full fence, the add of 1 to \<^verbatim>\<open>cycle_count\<close>, the store of the handle's
  expected sense to \<^verbatim>\<open>sense\<close>. Of these the process has made as many as it was scheduled for.
  Each step changes the shared state as its event says, and the fetch-add of line 219 is
  the add of 1 whose result the test compares.
\<close>

theorem releaser_order:
  assumes "pc (procs s0 p) = Idle"
    and "pc (procs (run s0 sched0) p) = L221_test_arrived"
    and "arrived (procs (run s0 sched0) p) = num_procs (procs (run s0 sched0) p)"
  shows "take 5 (events_of p (run s0 sched0) sched) =
           take (count_list sched p)
             [Local_step, Store_barrier_count 0, Thread_fence, Add_fetch_cycle_count 1,
              Store_sense (local_sense (handle (procs (run s0 sched0) p)))] \<and>
         (\<forall>q t. mem (sys_step q t) = apply_event (sys_event q t) (mem t)) \<and>
         (\<forall>t. pc (procs t p) = L219_add_fetch_count \<longrightarrow>
            sys_event p t = Add_fetch_barrier_count 1 \<and>
            arrived (procs (sys_step p t) p) = barrier_count (mem t) + 1 \<and>
            pc (procs (sys_step p t) p) = L221_test_arrived)"
proof -
  let ?b = "procs (run s0 sched0) p"
  have "sense_track (local_sense (handle (procs s0 p))) (length (returned (procs s0 p))) ?b"
    using assms(1) by (intro sense_track_run sense_track_Idle)
  then have ms: "my_sense ?b = local_sense (handle ?b)"
    using assms(2) by (intro sense_track_my_sense) simp_all
  have "take 5 (events_of p (run s0 sched0) sched) =
           take (count_list sched p)
             [Local_step, Store_barrier_count 0, Thread_fence, Add_fetch_cycle_count 1,
              Store_sense (my_sense ?b)]"
    using assms(2,3) by (intro releaser_events) simp_all
  then show ?thesis
    by (simp add: ms sys_step_effect sys_step_procs_self sys_event_def barrier_wait_step_def)
qed

theorem releaser_order_witness:
  "pc (procs (start_sys 2) 1) = Idle \<and>
   pc (procs (run (start_sys 2) [0, 0, 0, 0, 1, 1, 1]) 1) = L221_test_arrived \<and>
   arrived (procs (run (start_sys 2) [0, 0, 0, 0, 1, 1, 1]) 1) = 2 \<and>
   num_procs (procs (run (start_sys 2) [0, 0, 0, 0, 1, 1, 1]) 1) = 2 \<and>
   take 5 (events_of 1 (run (start_sys 2) [0, 0, 0, 0, 1, 1, 1]) [1, 0, 1, 1, 0, 1, 1, 1]) =
     [Local_step, Store_barrier_count 0, Thread_fence, Add_fetch_cycle_count 1, Store_sense 1]"
  using releaser_order[of "start_sys 2" 1 "[0, 0, 0, 0, 1, 1, 1]" "[1, 0, 1, 1, 0, 1, 1, 1]"]
  by (simp add: run_simps)

section \<open>The locally expected sense flips once for each completed wait\<close>

text \<open>
  Claim C2. Take a process outside \<^verbatim>\<open>barrier_wait\<close> and any interleaving of steps of any
  processes, after which the process is outside \<^verbatim>\<open>barrier_wait\<close> again and has completed \<open>k\<close>
  more calls. Then the expected sense of its handle is the old one when \<open>k\<close> is even and 1
  minus the old one when \<open>k\<close> is odd: one completed call turns it into 1 minus its value,
  whichever branch the call took. For a handle as \<^verbatim>\<open>barrier_open\<close> leaves it (expected sense
  1) the values after 0, 1, 2, ... completed calls are 1, 0, 1, ...
\<close>

theorem local_sense_flips:
  assumes "pc (procs s p) = Idle"
    and "pc (procs (run s sched) p) = Idle"
    and "length (returned (procs (run s sched) p)) = length (returned (procs s p)) + k"
  shows "local_sense (handle (procs (run s sched) p)) =
           (if even k then local_sense (handle (procs s p))
            else 1 - local_sense (handle (procs s p))) \<and>
         (local_sense (handle (procs s p)) = 1 \<longrightarrow>
            local_sense (handle (procs (run s sched) p)) = (if even k then 1 else 0))"
proof -
  have "sense_track (local_sense (handle (procs s p))) (length (returned (procs s p)))
          (procs (run s sched) p)"
    using assms(1) by (intro sense_track_run sense_track_Idle)
  then show ?thesis
    using assms(2,3) by (simp add: sense_track_def flipk_def)
qed

theorem local_sense_flips_witness:
  "pc (procs (start_sys 2) 0) = Idle \<and>
   pc (procs (run (start_sys 2) two_sched) 0) = Idle \<and>
   length (returned (procs (run (start_sys 2) two_sched) 0)) =
     length (returned (procs (start_sys 2) 0)) + 1 \<and>
   local_sense (handle (procs (start_sys 2) 0)) = 1 \<and>
   local_sense (handle (procs (run (start_sys 2) two_sched) 0)) = 0"
  using local_sense_flips[of "start_sys 2" 0 two_sched 1]
  by (simp add: run_simps)

section \<open>getCycle and the next wait\<close>

text \<open>In a session of \<open>n\<close> processes the next wait of a process returns the cycle count it
  could read before the call, plus 1 in 64-bit arithmetic.\<close>

lemma session_next_wait_succ:
  assumes "session_start m0 n s0"
    and "set sched \<subseteq> {..<unat n}" and "set sched' \<subseteq> {..<unat n}" and "p < unat n"
    and "pc (procs (run s0 sched) p) = Idle"
    and "length (returned (procs (run s0 sched) p)) <
         length (returned (procs (run (run s0 sched) sched') p))"
  shows "fst (barrier_get_cycle (mem (run s0 sched))) = [Load_cycle_count] \<and>
         returned (procs (run (run s0 sched) sched') p) ! length (returned (procs (run s0 sched) p)) =
           snd (barrier_get_cycle (mem (run s0 sched))) + 1 \<and>
         (snd (barrier_get_cycle (mem (run s0 sched))) \<noteq> - 1 \<longrightarrow>
            snd (barrier_get_cycle (mem (run s0 sched))) \<le>
            returned (procs (run (run s0 sched) sched') p) ! length (returned (procs (run s0 sched) p)))"
proof -
  let ?s = "run s0 sched" and ?s' = "run (run s0 sched) sched'"
  have "\<forall>p \<in> set sched. p < unat n" using assms(2) by auto
  note inv = reachable_inv[OF assms(1) this]
  have "\<forall>p \<in> set (sched @ sched'). p < unat n" using assms(2,3) by auto
  from reachable_inv[OF assms(1) this]
  have inv': "barrier_inv n (releases s0 (sched @ sched')) ?s'" by (simp add: run_append)
  note idle = inv_idle_cycle[OF inv assms(4,5)]
  have "returned (procs ?s' p) ! length (returned (procs ?s p)) =
          of_nat (Suc (length (returned (procs ?s p))))"
    using inv_returned[OF inv' assms(4)] assms(6) by simp
  then have next_ret: "returned (procs ?s' p) ! length (returned (procs ?s p)) =
      cycle_count (mem ?s) + 1"
    using idle by simp
  show ?thesis
    using next_ret word_le_succ[of "cycle_count (mem ?s)"]
    by (simp add: barrier_get_cycle_def)
qed

text \<open>
  Claim C3, amended. \<^verbatim>\<open>barrier_get_cycle\<close> is one atomic load and no loop. When a process
  outside \<^verbatim>\<open>barrier_wait\<close> reads the cycle counter and later, after any steps of any
  processes, has completed its next wait, the value read is at most the value that wait
  returned, provided the counter did not wrap in between: the value read plus the number
  of increments the run makes stays below \<open>2 ^ 64\<close>.
\<close>

theorem get_cycle_le_next_wait:
  assumes "pc (procs s p) = Idle"
    and "length (returned (procs s p)) < length (returned (procs (run s sched) p))"
    and "unat (cycle_count (mem s)) + incrs s sched < 2 ^ 64"
  shows "fst (barrier_get_cycle (mem s)) = [Load_cycle_count] \<and>
         snd (barrier_get_cycle (mem s)) \<le>
           returned (procs (run s sched) p) ! length (returned (procs s p))"
proof -
  obtain j where j: "j \<le> incrs s sched"
    and eq: "returned (procs (run s sched) p) ! length (returned (procs s p)) =
             cycle_count (mem s) + of_nat j"
    using returned_new[OF le_refl assms(2)] by blast
  have "unat (cycle_count (mem s)) + j < 2 ^ 64" using j assms(3) by simp
  then have "cycle_count (mem s) \<le> cycle_count (mem s) + of_nat j"
    by (rule word_le_plus_of_nat)
  then show ?thesis using eq by (simp add: barrier_get_cycle_def)
qed

theorem get_cycle_le_next_wait_witness:
  "pc (procs (start_sys 2) 0) = Idle \<and>
   incrs (start_sys 2) two_sched = 1 \<and>
   snd (barrier_get_cycle (mem (start_sys 2))) = 0 \<and>
   returned (procs (run (start_sys 2) two_sched) 0) ! length (returned (procs (start_sys 2) 0)) = 1"
  using get_cycle_le_next_wait[of "start_sys 2" 0 two_sched]
  by (simp add: run_simps barrier_get_cycle_def incrs_def sys_event_def)

text \<open>
  Claim C3 as stated fails where the counter wraps: after \<open>2 ^ 64 - 1\<close> waits of a session of
  one process, \<^verbatim>\<open>barrier_get_cycle\<close> reads \<open>2 ^ 64 - 1\<close> and the next wait returns 0.
\<close>

theorem get_cycle_wraps_counterexample:
  "pc (procs wrap_state 0) = Idle \<and>
   snd (barrier_get_cycle (mem wrap_state)) = - 1 \<and>
   pc (procs (run wrap_state solo_sched) 0) = Idle \<and>
   length (returned (procs (run wrap_state solo_sched) 0)) =
     Suc (length (returned (procs wrap_state 0))) \<and>
   returned (procs (run wrap_state solo_sched) 0) ! length (returned (procs wrap_state 0)) = 0 \<and>
   \<not> snd (barrier_get_cycle (mem wrap_state)) \<le>
     returned (procs (run wrap_state solo_sched) 0) ! length (returned (procs wrap_state 0))"
  using solo_wait_returns(1,2)[OF wrap_state_facts(1,2)] wrap_state_facts(2) wrap_state_cycle
  by (simp add: barrier_get_cycle_def)

section \<open>The leader publishes initialized last\<close>

text \<open>
  Claim C4. \<^verbatim>\<open>barrier_init_shared\<close> on a file whose \<^verbatim>\<open>initialized\<close> reads 0 (a file just
  created reads as zeros) leaves \<^verbatim>\<open>cycle_count\<close> 0, \<^verbatim>\<open>barrier_count\<close> 0, \<^verbatim>\<open>num_processes\<close> the
  count given, \<^verbatim>\<open>sense\<close> 0 and \<^verbatim>\<open>initialized\<close> 1. Over the states before and after each of
  its six accesses \<^verbatim>\<open>initialized\<close> reads 0, 0, 0, 0, 0, 0, 1: it changes once, at the last
  access, which follows the fence; and in every one of these states where \<^verbatim>\<open>initialized\<close>
  reads 1 the four other fields hold their initial values. A leader's \<^verbatim>\<open>barrier_open\<close> whose
  allocation, \<^verbatim>\<open>open\<close>, \<^verbatim>\<open>ftruncate\<close> and \<^verbatim>\<open>mmap\<close> succeed ends with exactly these accesses.
\<close>

theorem leader_init_order:
  assumes "initialized m = 0"
  shows "barrier_init_shared m n =
           \<lparr>cycle_count = 0, barrier_count = 0, num_processes = n, sense = 0, initialized = 1\<rparr> \<and>
         map initialized (states_after (barrier_init_events n) m) = [0, 0, 0, 0, 0, 0, 1] \<and>
         (\<forall>s \<in> set (states_after (barrier_init_events n) m).
            initialized s = 1 \<longrightarrow>
              cycle_count s = 0 \<and> barrier_count s = 0 \<and> num_processes s = n \<and> sense s = 0) \<and>
         last (barrier_init_events n) = Store_initialized 1 \<and>
         last (butlast (barrier_init_events n)) = Thread_fence \<and>
         (memalign_ok env \<and> 0 \<le> fst (open_answer env 0) \<and> 0 \<le> ftruncate_answer env \<and>
          mmap_answer env \<noteq> None \<longrightarrow>
            opened (barrier_open env m nm True n) \<noteq> None \<and>
            shared_after (barrier_open env m nm True n) = barrier_init_shared m n \<and>
            drop 5 (calls (barrier_open env m nm True n)) = map Atomic (barrier_init_events n))"
proof -
  have "opened (barrier_open env m nm True n) \<noteq> None \<and>
            shared_after (barrier_open env m nm True n) = barrier_init_shared m n \<and>
            drop 5 (calls (barrier_open env m nm True n)) = map Atomic (barrier_init_events n)"
    if "memalign_ok env" "0 \<le> fst (open_answer env 0)" "0 \<le> ftruncate_answer env"
      "mmap_answer env = Some p" for p
    by (simp add: leader_open_success[OF that])
  then show ?thesis
    using assms by (auto simp add: barrier_init_shared_def barrier_init_events_def)
qed

theorem leader_init_order_witness:
  "initialized zero_shared = 0 \<and>
   shared_after (barrier_open good_env zero_shared ''/tmp/barrier'' True 3) =
     \<lparr>cycle_count = 0, barrier_count = 0, num_processes = 3, sense = 0, initialized = 1\<rparr> \<and>
   map initialized (states_after (barrier_init_events 3) zero_shared) = [0, 0, 0, 0, 0, 0, 1]"
  using leader_init_order[of zero_shared 3 good_env "''/tmp/barrier''"]
  by (simp add: zero_shared_def good_env_def)

section \<open>The arrival counter stays within the number of processes\<close>

text \<open>
  Sessions whose handles are all opened before the first release. In every state a
  session of \<open>n\<close> processes reaches under any schedule: \<^verbatim>\<open>barrier_count\<close> is at most
  \<^verbatim>\<open>num_processes\<close>; it is 0 while a releaser stands between its reset and its store to the
  sense flag, and otherwise the number of processes that have arrived in the current
  episode, so it is 0 from the release until the next arrival; a step changes it only by
  the fetch-add of 1 of line 219 or by the reset of line 225; and the counter is 0 when
  the release is published and right after.
\<close>

theorem barrier_count_bounded:
  assumes "session_start m0 n s0" and "set sched \<subseteq> {..<unat n}" and "p < unat n"
  shows "barrier_count (mem (run s0 sched)) \<le> num_processes (mem (run s0 sched)) \<and>
         barrier_count (mem (run s0 sched)) =
           (if resetting n (run s0 sched) then 0
            else of_nat (card (arrived_set n (releases s0 sched) (run s0 sched)))) \<and>
         card (arrived_set n (releases s0 sched) (run s0 sched)) \<le> unat n \<and>
         barrier_count (mem (sys_step p (run s0 sched))) =
           (if pc (procs (run s0 sched) p) = L219_add_fetch_count
            then barrier_count (mem (run s0 sched)) + 1
            else if pc (procs (run s0 sched) p) = L225_reset_count then 0
            else barrier_count (mem (run s0 sched))) \<and>
         (pc (procs (run s0 sched) p) = L235_store_sense \<longrightarrow>
            barrier_count (mem (run s0 sched)) = 0 \<and>
            barrier_count (mem (sys_step p (run s0 sched))) = 0)"
proof -
  have "\<forall>p \<in> set sched. p < unat n" using assms(2) by auto
  note inv = reachable_inv[OF assms(1) this]
  show ?thesis
    using inv_barrier_count_le[OF inv] inv_barrier_count(1)[OF inv]
      card_arrived_set_le[of n "releases s0 sched" "run s0 sched"]
      step_barrier_count[of p "run s0 sched"] inv_publisher_count[OF inv assms(3)]
    by simp
qed

theorem barrier_count_bounded_witness:
  "barrier_count (mem (run (start_sys 2) [0, 0, 0, 0, 1, 1])) = 1 \<and>
   num_processes (mem (run (start_sys 2) [0, 0, 0, 0, 1, 1])) = 2 \<and>
   pc (procs (run (start_sys 2) [0, 0, 0, 0, 1, 1]) 1) = L219_add_fetch_count \<and>
   barrier_count (mem (sys_step 1 (run (start_sys 2) [0, 0, 0, 0, 1, 1]))) = 2"
  using barrier_count_bounded[of zero_shared 2 "start_sys 2" "[0, 0, 0, 0, 1, 1]" 1]
    session_start_start_sys[of 2]
  by (simp add: run_simps)

text \<open>
  Claim C5 fails on the code for a process that joins after an odd number of episodes:
  its handle expects sense 1 (line 154) while the shared sense flag is 1 already. In the
  session of \<open>late_join_state\<close>, with \<^verbatim>\<open>num_processes\<close> 2 and two processes, the follower's
  first \<^verbatim>\<open>barrier_wait\<close> adds 1 to \<^verbatim>\<open>barrier_count\<close>, finds the flag equal to its expected sense
  at line 238 and returns with no release made, so the counter is left at 1. Its second
  call makes the counter 2 and stands before the reset of line 225; the leader's call
  then makes the counter 3. At most two calls are inside \<^verbatim>\<open>barrier_wait\<close> at any moment, and
  \<^verbatim>\<open>barrier_count\<close> is 3 with \<^verbatim>\<open>num_processes\<close> 2.
\<close>

theorem late_join_count_exceeds:
  "num_processes (mem late_join_state) = 2 \<and> barrier_count (mem late_join_state) = 0 \<and>
   pc (procs late_join_state 0) = Idle \<and> pc (procs late_join_state 1) = Idle \<and>
   pc (procs (run late_join_state (take 8 late_count_sched)) 1) = Idle \<and>
   returned (procs (run late_join_state (take 8 late_count_sched)) 1) = [1] \<and>
   releases late_join_state (take 8 late_count_sched) = 0 \<and>
   barrier_count (mem (run late_join_state (take 8 late_count_sched))) = 1 \<and>
   pc (procs (run late_join_state (take 12 late_count_sched)) 0) = Idle \<and>
   pc (procs (run late_join_state (take 12 late_count_sched)) 1) = L225_reset_count \<and>
   barrier_count (mem (run late_join_state (take 12 late_count_sched))) = 2 \<and>
   pc (procs (run late_join_state late_count_sched) 0) = L221_test_arrived \<and>
   pc (procs (run late_join_state late_count_sched) 1) = L225_reset_count \<and>
   num_processes (mem (run late_join_state late_count_sched)) = 2 \<and>
   barrier_count (mem (run late_join_state late_count_sched)) = 3 \<and>
   \<not> barrier_count (mem (run late_join_state late_count_sched))
       \<le> num_processes (mem (run late_join_state late_count_sched))"
  unfolding late_join_state_eq
  by (simp add: run_simps solo_sched_def late_count_sched_def releases_def sys_event_def)

section \<open>The follower's polling is bounded\<close>

text \<open>
  Claim C6. \<^verbatim>\<open>barrier_open\<close> of a follower polls in three phases and each phase is bounded by
  1000 retries. Whatever the operating system answers, it calls \<^verbatim>\<open>open\<close> at most 1000 times,
  \<^verbatim>\<open>fstat\<close> at most 1000 times and loads \<^verbatim>\<open>initialized\<close> at most 1000 times, every sleep is of
  10000 or 1000 microseconds, and when the first 1000 answers of any one phase are all
  negative it returns \<^verbatim>\<open>NULL\<close>. The phases do retry, and a sleep separates two checks: when
  \<^verbatim>\<open>open\<close> fails \<open>k1\<close> times with \<^verbatim>\<open>ENOENT\<close>, the file is not sized at the first \<open>k2\<close> calls of
  \<^verbatim>\<open>fstat\<close> and \<^verbatim>\<open>initialized\<close> is not 1 at the first \<open>k3\<close> loads, the calls made are exactly:
  \<open>k1\<close> times \<^verbatim>\<open>open\<close> then \<^verbatim>\<open>usleep(10000)\<close>, the \<^verbatim>\<open>open\<close> that succeeds, \<open>k2\<close> times \<^verbatim>\<open>fstat\<close> then
  \<^verbatim>\<open>usleep(10000)\<close>, the \<^verbatim>\<open>fstat\<close> that succeeds, \<^verbatim>\<open>mmap\<close>, \<^verbatim>\<open>strdup\<close>, \<open>k3\<close> times a load of
  \<^verbatim>\<open>initialized\<close> then \<^verbatim>\<open>usleep(1000)\<close>, and the load that reads 1. A phase whose count reaches
  1000 ends the call there, after exactly 1000 checks and 1000 sleeps, at the label \<^verbatim>\<open>err\<close>;
  the call returns \<^verbatim>\<open>NULL\<close> exactly when one of the three counts is 1000. The three loops are
  total functions: each has a termination proof.
\<close>

theorem open_polling_bounded:
  "max_retries = 1000 \<and>
   length (filter is_open_call (calls (barrier_open env m nm False n))) \<le> max_retries \<and>
   length (filter is_fstat_call (calls (barrier_open env m nm False n))) \<le> max_retries \<and>
   length (filter is_init_load (calls (barrier_open env m nm False n))) \<le> max_retries \<and>
   length (filter is_usleep (calls (barrier_open env m nm False n))) \<le> 3 * max_retries \<and>
   (\<forall>d. Usleep d \<in> set (calls (barrier_open env m nm False n)) \<longrightarrow> d = 10000 \<or> d = 1000) \<and>
   ((\<forall>i < max_retries. fst (open_answer env i) < 0 \<and> snd (open_answer env i) = ENOENT) \<longrightarrow>
      opened (barrier_open env m nm False n) = None) \<and>
   ((\<forall>i < max_retries.
       \<not> (fst (fstat_answer env i) = 0 \<and> barrier_mapsize \<le> snd (fstat_answer env i))) \<longrightarrow>
      opened (barrier_open env m nm False n) = None) \<and>
   ((\<forall>i < max_retries. initialized_read env i \<noteq> 1) \<longrightarrow>
      opened (barrier_open env m nm False n) = None) \<and>
   (memalign_ok env \<and>
    k1 \<le> max_retries \<and> k2 \<le> max_retries \<and> k3 \<le> max_retries \<and>
    (k1 < max_retries \<and> k2 < max_retries \<longrightarrow> mmap_answer env \<noteq> None) \<and>
    (\<forall>i < k1. fst (open_answer env i) < 0 \<and> snd (open_answer env i) = ENOENT) \<and>
    (k1 < max_retries \<longrightarrow> 0 \<le> fst (open_answer env k1)) \<and>
    (\<forall>i < k2. \<not> (fst (fstat_answer env i) = 0 \<and>
                  barrier_mapsize \<le> snd (fstat_answer env i))) \<and>
    (k2 < max_retries \<longrightarrow>
       fst (fstat_answer env k2) = 0 \<and> barrier_mapsize \<le> snd (fstat_answer env k2)) \<and>
    (\<forall>i < k3. initialized_read env i \<noteq> 1) \<and>
    (k3 < max_retries \<longrightarrow> initialized_read env k3 = 1) \<longrightarrow>
    calls (barrier_open env m nm False n) =
      Posix_memalign # polls (Open_path nm False) (Usleep 10000) k1 @
        (if k1 = max_retries then [Free_handle]
         else Open_path nm False #
           polls (Fstat (fst (open_answer env k1))) (Usleep 10000) k2 @
           (if k2 = max_retries then [Close_fd (fst (open_answer env k1)), Free_handle]
            else Fstat (fst (open_answer env k1)) # Mmap (fst (open_answer env k1)) #
              Strdup nm # polls (Atomic Load_initialized) (Usleep 1000) k3 @
              (if k3 = max_retries then [Close_fd (fst (open_answer env k1)), Free_handle]
               else [Atomic Load_initialized]))) \<and>
    (opened (barrier_open env m nm False n) = None \<longleftrightarrow>
       k1 = max_retries \<or> k2 = max_retries \<or> k3 = max_retries))"
proof -
  have "max_retries = 1000"
    by (simp add: max_retries_def)
  moreover note follower_open_calls[of env m nm n] follower_open_exhausted[of env m nm n]
  moreover have "memalign_ok env \<and>
    k1 \<le> max_retries \<and> k2 \<le> max_retries \<and> k3 \<le> max_retries \<and>
    (k1 < max_retries \<and> k2 < max_retries \<longrightarrow> mmap_answer env \<noteq> None) \<and>
    (\<forall>i < k1. fst (open_answer env i) < 0 \<and> snd (open_answer env i) = ENOENT) \<and>
    (k1 < max_retries \<longrightarrow> 0 \<le> fst (open_answer env k1)) \<and>
    (\<forall>i < k2. \<not> (fst (fstat_answer env i) = 0 \<and>
                  barrier_mapsize \<le> snd (fstat_answer env i))) \<and>
    (k2 < max_retries \<longrightarrow>
       fst (fstat_answer env k2) = 0 \<and> barrier_mapsize \<le> snd (fstat_answer env k2)) \<and>
    (\<forall>i < k3. initialized_read env i \<noteq> 1) \<and>
    (k3 < max_retries \<longrightarrow> initialized_read env k3 = 1) \<longrightarrow>
    calls (barrier_open env m nm False n) =
      Posix_memalign # polls (Open_path nm False) (Usleep 10000) k1 @
        (if k1 = max_retries then [Free_handle]
         else Open_path nm False #
           polls (Fstat (fst (open_answer env k1))) (Usleep 10000) k2 @
           (if k2 = max_retries then [Close_fd (fst (open_answer env k1)), Free_handle]
            else Fstat (fst (open_answer env k1)) # Mmap (fst (open_answer env k1)) #
              Strdup nm # polls (Atomic Load_initialized) (Usleep 1000) k3 @
              (if k3 = max_retries then [Close_fd (fst (open_answer env k1)), Free_handle]
               else [Atomic Load_initialized]))) \<and>
    (opened (barrier_open env m nm False n) = None \<longleftrightarrow>
       k1 = max_retries \<or> k2 = max_retries \<or> k3 = max_retries)"
    using follower_open_trace[of env k1 k2 k3 m nm n] by blast
  ultimately show ?thesis
    by blast
qed

theorem open_polling_bounded_witness:
  "calls (barrier_open slow_env zero_shared ''/tmp/barrier'' False 2) =
     [Posix_memalign,
      Open_path ''/tmp/barrier'' False, Usleep 10000,
      Open_path ''/tmp/barrier'' False, Usleep 10000,
      Open_path ''/tmp/barrier'' False,
      Fstat 3, Usleep 10000, Fstat 3,
      Mmap 3, Strdup ''/tmp/barrier'',
      Atomic Load_initialized, Usleep 1000,
      Atomic Load_initialized, Usleep 1000,
      Atomic Load_initialized, Usleep 1000,
      Atomic Load_initialized] \<and>
   opened (barrier_open slow_env zero_shared ''/tmp/barrier'' False 2) \<noteq> None \<and>
   calls (barrier_open never_env zero_shared ''/tmp/barrier'' False 2) =
     Posix_memalign #
     polls (Open_path ''/tmp/barrier'' False) (Usleep 10000) 1000 @ [Free_handle] \<and>
   opened (barrier_open never_env zero_shared ''/tmp/barrier'' False 2) = None"
proof -
  have "calls (barrier_open slow_env zero_shared ''/tmp/barrier'' False 2) =
     [Posix_memalign,
      Open_path ''/tmp/barrier'' False, Usleep 10000,
      Open_path ''/tmp/barrier'' False, Usleep 10000,
      Open_path ''/tmp/barrier'' False,
      Fstat 3, Usleep 10000, Fstat 3,
      Mmap 3, Strdup ''/tmp/barrier'',
      Atomic Load_initialized, Usleep 1000,
      Atomic Load_initialized, Usleep 1000,
      Atomic Load_initialized, Usleep 1000,
      Atomic Load_initialized] \<and>
   opened (barrier_open slow_env zero_shared ''/tmp/barrier'' False 2) \<noteq> None"
    using open_polling_bounded[of slow_env zero_shared "''/tmp/barrier''" 2 2 1 3]
    by (simp add: slow_env_def polls_Suc polls_0 numeral_2_eq_2 numeral_3_eq_3
        max_retries_def barrier_mapsize_def)
  moreover have "calls (barrier_open never_env zero_shared ''/tmp/barrier'' False 2) =
     Posix_memalign #
     polls (Open_path ''/tmp/barrier'' False) (Usleep 10000) 1000 @ [Free_handle] \<and>
   opened (barrier_open never_env zero_shared ''/tmp/barrier'' False 2) = None"
    using open_polling_bounded[of never_env zero_shared "''/tmp/barrier''" 2 1000 1000 1000]
    by (simp add: never_env_def max_retries_def)
  ultimately show ?thesis
    by simp
qed

section \<open>A failed barrier\_open and what it still holds\<close>

text \<open>
  Claim C7 fails on the code. A follower finds the file, sized, and maps it, but
  \<^verbatim>\<open>initialized\<close> stays 0 for all 1000 loads. \<^verbatim>\<open>barrier_open\<close> returns \<^verbatim>\<open>NULL\<close> through the
  label \<^verbatim>\<open>err\<close>, which closes the descriptor and frees the handle; the mapping made at line
  144 and the copy of the name made at line 151 are still held.
\<close>

theorem open_init_timeout_leaks:
  "opened (barrier_open stalled_env zero_shared ''/tmp/barrier'' False 2) = None \<and>
   held (barrier_open stalled_env zero_shared ''/tmp/barrier'' False 2) =
     \<lparr>handle_alloc = False, open_fd = None, mapping = True, name_copy = True\<rparr>"
proof -
  obtain r4 t4 where i: "init_loop stalled_env 0 = (r4, t4)"
    by (cases "init_loop stalled_env 0")
  have "r4 = max_retries"
    using init_loop_exhausted[OF _ _ i] by (simp add: stalled_env_def)
  then show ?thesis
    unfolding follower_open_unfold[OF stalled_open_loop stalled_size_loop i]
    by (simp add: open_err_def stalled_env_def no_resources_def max_retries_def)
qed

section \<open>barrier\_close\<close>

lemma leader_opened:
  assumes "opened (barrier_open env m nm True n) = Some b"
  shows "local_sense b = 1 \<and> unmap_at_close b \<and> is_leader b \<and>
         valid_handle b \<and> 0 \<le> fd b \<and>
         name b = (if strdup_ok env then Some nm else None)"
proof -
  obtain failed fdv t1 where o: "open_loop env nm True (- 1) 0 = (failed, fdv, t1)"
    by (cases "open_loop env nm True (- 1) 0")
  show ?thesis
    using assms
    by (cases "mmap_answer env")
      (auto simp: barrier_open_def Let_def o open_err_calls filled_handle_def valid_handle_def
        split: if_splits)
qed

text \<open>The handle that \<^verbatim>\<open>barrier_open\<close> returns, for either role.\<close>

lemma opened_handle:
  assumes "opened (barrier_open env m nm ldr n) = Some b"
  shows "valid_handle b \<and> 0 \<le> fd b \<and> unmap_at_close b \<and> is_leader b = ldr \<and>
         name b = (if strdup_ok env then Some nm else None)"
  using assms leader_opened[of env m nm n b] follower_opened[of env m nm n b]
  by (cases ldr) simp_all

text \<open>What \<^verbatim>\<open>barrier_close\<close> calls. On \<^verbatim>\<open>NULL\<close> nothing. On a valid handle \<^verbatim>\<open>munmap\<close> exactly when
  \<^verbatim>\<open>unmap_at_close\<close> is set; \<^verbatim>\<open>close\<close> exactly when the descriptor is not negative; \<^verbatim>\<open>unlink\<close>, on
  the handle's name, exactly when the handle is the leader's and its name is not \<^verbatim>\<open>NULL\<close>. On
  a handle that \<^verbatim>\<open>barrier_open\<close> returned: \<^verbatim>\<open>munmap\<close>, \<^verbatim>\<open>close\<close>, and \<^verbatim>\<open>unlink\<close> exactly when it was
  opened as leader and \<^verbatim>\<open>strdup\<close> had succeeded; a follower's close never unlinks.\<close>

lemma close_calls:
  "barrier_close None r = ([], r) \<and>
   (valid_handle b \<longrightarrow>
      (Munmap \<in> set (fst (barrier_close (Some b) r)) \<longleftrightarrow> unmap_at_close b) \<and>
      mapping (snd (barrier_close (Some b) r)) = (mapping r \<and> \<not> unmap_at_close b)) \<and>
   (Close_fd (fd b) \<in> set (fst (barrier_close (Some b) r)) \<longleftrightarrow> 0 \<le> fd b) \<and>
   (0 \<le> fd b \<longrightarrow> open_fd (snd (barrier_close (Some b) r)) = None) \<and>
   ((\<exists>x. Unlink x \<in> set (fst (barrier_close (Some b) r))) \<longleftrightarrow>
      is_leader b \<and> name b \<noteq> None) \<and>
   (\<forall>x. Unlink x \<in> set (fst (barrier_close (Some b) r)) \<longrightarrow> name b = Some x) \<and>
   \<not> name_copy (snd (barrier_close (Some b) r)) \<and>
   \<not> handle_alloc (snd (barrier_close (Some b) r)) \<and>
   (opened (barrier_open env m nm ldr n) = Some b \<longrightarrow>
      Munmap \<in> set (fst (barrier_close (Some b) r)) \<and>
      Close_fd (fd b) \<in> set (fst (barrier_close (Some b) r)) \<and>
      (Unlink nm \<in> set (fst (barrier_close (Some b) r)) \<longleftrightarrow> ldr \<and> strdup_ok env))"
proof -
  have "opened (barrier_open env m nm ldr n) = Some b \<longrightarrow>
      Munmap \<in> set (fst (barrier_close (Some b) r)) \<and>
      Close_fd (fd b) \<in> set (fst (barrier_close (Some b) r)) \<and>
      (Unlink nm \<in> set (fst (barrier_close (Some b) r)) \<longleftrightarrow> ldr \<and> strdup_ok env)"
    using opened_handle[of env m nm ldr n b]
    by (auto simp: barrier_close_def valid_handle_def split: option.splits)
  moreover have "barrier_close None r = ([], r) \<and>
   (valid_handle b \<longrightarrow>
      (Munmap \<in> set (fst (barrier_close (Some b) r)) \<longleftrightarrow> unmap_at_close b) \<and>
      mapping (snd (barrier_close (Some b) r)) = (mapping r \<and> \<not> unmap_at_close b)) \<and>
   (Close_fd (fd b) \<in> set (fst (barrier_close (Some b) r)) \<longleftrightarrow> 0 \<le> fd b) \<and>
   (0 \<le> fd b \<longrightarrow> open_fd (snd (barrier_close (Some b) r)) = None) \<and>
   ((\<exists>x. Unlink x \<in> set (fst (barrier_close (Some b) r))) \<longleftrightarrow>
      is_leader b \<and> name b \<noteq> None) \<and>
   (\<forall>x. Unlink x \<in> set (fst (barrier_close (Some b) r)) \<longrightarrow> name b = Some x) \<and>
   \<not> name_copy (snd (barrier_close (Some b) r)) \<and>
   \<not> handle_alloc (snd (barrier_close (Some b) r))"
    by (cases "name b"; cases "shm b")
      (auto simp: barrier_close_def valid_handle_def)
  ultimately show ?thesis
    by blast
qed

lemma close_calls_example:
  "fst (barrier_close (Some (filled_handle 4096 (Some ''/tmp/barrier'') 3 True))
          \<lparr>handle_alloc = True, open_fd = Some 3, mapping = True, name_copy = True\<rparr>) =
     [Munmap, Close_fd 3, Unlink ''/tmp/barrier'', Free_name, Free_handle] \<and>
   fst (barrier_close (Some (filled_handle 4096 (Some ''/tmp/barrier'') 3 False))
          \<lparr>handle_alloc = True, open_fd = Some 3, mapping = True, name_copy = True\<rparr>) =
     [Munmap, Close_fd 3, Free_name, Free_handle]"
  using close_calls[of "\<lparr>handle_alloc = True, open_fd = Some 3, mapping = True, name_copy = True\<rparr>"
      "filled_handle 4096 (Some ''/tmp/barrier'') 3 True"]
  by (simp add: barrier_close_def valid_handle_def filled_handle_def)

text \<open>A leader whose \<^verbatim>\<open>strdup\<close> failed at line 151: \<^verbatim>\<open>barrier_open\<close> does not check the result
  and returns the handle, with \<^verbatim>\<open>name\<close> \<^verbatim>\<open>NULL\<close>.\<close>

lemma nostrdup_open:
  "barrier_open nostrdup_env zero_shared ''/tmp/barrier'' True 2 =
     \<lparr>opened = Some (filled_handle 4096 None 3 True),
      held = \<lparr>handle_alloc = True, open_fd = Some 3, mapping = True, name_copy = False\<rparr>,
      calls = [Posix_memalign, Open_path ''/tmp/barrier'' True, Ftruncate 3, Mmap 3,
               Strdup ''/tmp/barrier''] @ map Atomic (barrier_init_events 2),
      shared_after = barrier_init_shared zero_shared 2\<rparr>"
  using leader_open_success[of nostrdup_env 4096 zero_shared "''/tmp/barrier''" 2]
  by (simp add: nostrdup_env_def)

text \<open>
  Claim C8 fails on the code. The leader creates the file \<^verbatim>\<open>/tmp/barrier\<close>, maps it and
  initialises it, but \<^verbatim>\<open>strdup\<close> returns \<^verbatim>\<open>NULL\<close>. \<^verbatim>\<open>barrier_open\<close> returns a handle that passes the
  code's test of validity and is the leader's. \<^verbatim>\<open>barrier_close\<close> on it unmaps, closes the
  descriptor and frees the handle, and releases everything the process held, but the guard
  of line 199 skips \<^verbatim>\<open>unlink\<close>: the leader has closed and the file is still there.
\<close>

theorem close_unnamed_leader_keeps_file:
  "opened (barrier_open nostrdup_env zero_shared ''/tmp/barrier'' True 2) =
     Some (filled_handle 4096 None 3 True) \<and>
   Open_path ''/tmp/barrier'' True \<in>
     set (calls (barrier_open nostrdup_env zero_shared ''/tmp/barrier'' True 2)) \<and>
   valid_handle (filled_handle 4096 None 3 True) \<and>
   is_leader (filled_handle 4096 None 3 True) \<and>
   barrier_close (opened (barrier_open nostrdup_env zero_shared ''/tmp/barrier'' True 2))
       (held (barrier_open nostrdup_env zero_shared ''/tmp/barrier'' True 2)) =
     ([Munmap, Close_fd 3, Free_name, Free_handle],
      \<lparr>handle_alloc = False, open_fd = None, mapping = False, name_copy = False\<rparr>) \<and>
   Unlink ''/tmp/barrier'' \<notin>
     set (fst (barrier_close
                 (opened (barrier_open nostrdup_env zero_shared ''/tmp/barrier'' True 2))
                 (held (barrier_open nostrdup_env zero_shared ''/tmp/barrier'' True 2))))"
  by (simp add: nostrdup_open barrier_close_def valid_handle_def filled_handle_def)

section \<open>All waits of an episode return the same cycle count\<close>

text \<open>
  Sessions whose handles are all opened before the first release. A session of \<open>n\<close>
  processes starts as \<^verbatim>\<open>barrier_open\<close> leaves it and runs under any schedule of its
  processes. Then the \<open>k\<close>-th completed wait of any two processes returned the same value,
  the number of the episode; every process has completed as many waits as release
  signals were published, or one less; and the shared cycle counter is the number of
  published releases, plus one while a releaser stands between its increment and its
  store to the sense flag.
\<close>

theorem episode_same_cycle:
  assumes "session_start m0 n s0" and "set sched \<subseteq> {..<unat n}"
    and "p < unat n" and "q < unat n"
  shows "(\<forall>k. k < length (returned (procs (run s0 sched) p)) \<and>
              k < length (returned (procs (run s0 sched) q)) \<longrightarrow>
            returned (procs (run s0 sched) p) ! k = returned (procs (run s0 sched) q) ! k \<and>
            returned (procs (run s0 sched) p) ! k = of_nat (Suc k)) \<and>
         (length (returned (procs (run s0 sched) p)) = releases s0 sched \<or>
          Suc (length (returned (procs (run s0 sched) p))) = releases s0 sched) \<and>
         cycle_count (mem (run s0 sched)) =
           of_nat (if publishing n (run s0 sched) then Suc (releases s0 sched)
                   else releases s0 sched)"
proof -
  have "\<forall>p \<in> set sched. p < unat n" using assms(2) by auto
  note inv = reachable_inv[OF assms(1) this]
  show ?thesis
    using inv_returned[OF inv assms(3)] inv_returned[OF inv assms(4)]
      inv_lockstep[OF inv assms(3)] inv_cycle_count[OF inv]
    by simp
qed

theorem episode_same_cycle_witness:
  "returned (procs (run (start_sys 2) two_sched) 0) ! 0 =
     returned (procs (run (start_sys 2) two_sched) 1) ! 0 \<and>
   returned (procs (run (start_sys 2) two_sched) 0) = [1] \<and>
   returned (procs (run (start_sys 2) two_sched) 1) = [1] \<and>
   releases (start_sys 2) two_sched = 1 \<and>
   cycle_count (mem (run (start_sys 2) two_sched)) = 1"
  using episode_same_cycle[of zero_shared 2 "start_sys 2" two_sched 0 1]
    session_start_start_sys[of 2]
  by (simp add: run_simps releases_def sys_event_def)

text \<open>
  Claim C9 fails on the code for a process that joins after an odd number of episodes.
  Its handle expects sense 1 (line 154) while the shared sense flag is 1 already. In
  episode 2 of the session above both processes are inside \<^verbatim>\<open>barrier_wait\<close> at the same
  time, the follower at the spin loop and the leader before its reset; the follower finds
  the flag equal to its expected sense and returns cycle count 1, the leader releases and
  returns 2.
\<close>

theorem late_join_breaks_episode:
  "num_processes (mem late_join_state) = 2 \<and>
   pc (procs late_join_state 0) = Idle \<and> pc (procs late_join_state 1) = Idle \<and>
   returned (procs late_join_state 0) = [1] \<and> returned (procs late_join_state 1) = [] \<and>
   pc (procs (run late_join_state (take 8 late_join_sched)) 0) = L225_reset_count \<and>
   pc (procs (run late_join_state (take 8 late_join_sched)) 1) = L238_spin \<and>
   returned (procs (run late_join_state late_join_sched) 0) = [1, 2] \<and>
   returned (procs (run late_join_state late_join_sched) 1) = [1] \<and>
   releases late_join_state late_join_sched = 1"
  unfolding late_join_state_eq
  by (simp add: run_simps solo_sched_def late_join_sched_def releases_def sys_event_def)

section \<open>A barrier for one process\<close>




end
